theory Spec2Isabelle
  imports Main "HOL-Library.Word"
begin

unbundle bit_operations_syntax

section \<open>STIR audio encoders (audioencoder.cpp)\<close>

type_synonym u8 = "8 word"
type_synonym u16 = "16 word"
type_synonym u32 = "32 word"
type_synonym u64 = "64 word"

subsection \<open>PCMEncoder\<close>

text \<open>
  \<^verbatim>\<open>void PCMEncoder::encode(in, out) { out.insert(out.end(), in.begin(), in.end()); }\<close>
  The output vector is passed by reference; the model takes its old contents and
  returns the new ones.
\<close>

definition PCMEncoder_encode :: "u8 list \<Rightarrow> u8 list \<Rightarrow> u8 list" where
  "PCMEncoder_encode inp out = out @ inp"

subsection \<open>ADPCMEncoder: tables and codec state\<close>

text \<open>
  Modelled from the spec: \<^verbatim>\<open>INDEX_MAX\<close> and \<^verbatim>\<open>struct State\<close> are declared in
  audioencoder.h, which is not among the sources. The spec gives the step index the
  range 0..88 (the last entry of the 89-entry step table), and the state the two
  fields \<^verbatim>\<open>sample\<close> and \<^verbatim>\<open>index\<close>. Both fields are C \<^verbatim>\<open>int\<close>s; they are modelled as
  \<^typ>\<open>int\<close>, which agrees with the 32-bit machine integer as long as no signed
  overflow (undefined in C++) takes place.
\<close>

definition INDEX_MAX :: int where
  "INDEX_MAX = 88"

record State =
  sample :: int
  index :: int

definition stepSizeTable :: "int list" where
  "stepSizeTable = [
     7, 8, 9, 10, 11, 12, 13, 14, 16, 17, 19, 21, 23, 25, 28, 31,
     34, 37, 41, 45, 50, 55, 60, 66, 73, 80, 88, 97, 107, 118, 130,
     143, 157, 173, 190, 209, 230, 253, 279, 307, 337, 371, 408, 449,
     494, 544, 598, 658, 724, 796, 876, 963, 1060, 1166, 1282, 1411,
     1552, 1707, 1878, 2066, 2272, 2499, 2749, 3024, 3327, 3660, 4026,
     4428, 4871, 5358, 5894, 6484, 7132, 7845, 8630, 9493, 10442, 11487,
     12635, 13899, 15289, 16818, 18500, 20350, 22385, 24623, 27086, 29794, 32767]"

definition codeTable :: "u32 list" where
  "codeTable = [
     0xFFFFFF01, 0xFFFFFF03, 0xFFFFFF05, 0xFFFFFF07,
     0x00000209, 0x0000040B, 0x0000060D, 0x0000080F,
     0xFFFFFFFF, 0xFFFFFFFD, 0xFFFFFFFB, 0xFFFFFFF9,
     0x000002F7, 0x000004F5, 0x000006F3, 0x000008F1]"

subsection \<open>ADPCMEncoder::encodeSample\<close>

text \<open>
  \<^verbatim>\<open>int thisDiff = int(unsigned(int8_t(codeTable[code])) * unsigned(step)) >> 3;\<close>
  The functional cast \<^verbatim>\<open>int(...)\<close> binds tighter than \<^verbatim>\<open>>>\<close>: the low byte is
  sign-extended to 32 bits, the product is formed modulo \<open>2^32\<close>, the product is
  reinterpreted as a signed \<^verbatim>\<open>int\<close>, and that signed value is shifted right
  (arithmetically, as every compiler the tool is built with does, and as C++20
  requires).
\<close>

definition thisDiff :: "nat \<Rightarrow> int \<Rightarrow> int" where
  "thisDiff code step =
     sint (signed_drop_bit 3
       ((scast (ucast (codeTable ! code) :: u8) :: u32) * (word_of_int step :: u32)))"

text \<open>
  The candidate delta as the specification words it: the same product, shifted right
  by 3 as an unsigned value, and only then read as a signed 32-bit integer.
\<close>

definition specDelta :: "nat \<Rightarrow> int \<Rightarrow> int" where
  "specDelta code step =
     sint (drop_bit 3
       ((scast (ucast (codeTable ! code) :: u8) :: u32) * (word_of_int step :: u32)))"

text \<open>The signed multiplier \<open>m(c)\<close>: the low byte of the table entry read as \<^verbatim>\<open>int8_t\<close>.\<close>

definition multiplier :: "nat \<Rightarrow> int" where
  "multiplier code = sint (ucast (codeTable ! code) :: u8)"

text \<open>
  One iteration of \<^verbatim>\<open>for (unsigned code = 0; code < 16; ++code)\<close>; the loop state is
  \<^verbatim>\<open>(bestCode, bestDiff)\<close>. The four subtractions are subtractions of C \<^verbatim>\<open>int\<close>s; they
  are written here in \<^typ>\<open>int\<close>, which is the value the code computes whenever none of
  them leaves the 32-bit range. For \<open>diff < -2146435071\<close> the first
  \<^verbatim>\<open>bestDiff - diff\<close> (with \<^verbatim>\<open>bestDiff = 0x100000\<close>) exceeds \<open>2^31 - 1\<close>, and this
  definition no longer describes the code.
\<close>

definition tryCode :: "int \<Rightarrow> int \<Rightarrow> nat \<Rightarrow> nat \<times> int \<Rightarrow> nat \<times> int" where
  "tryCode step diff code best =
     (let thisD = thisDiff code step;
          thisError = max (thisD - diff) (diff - thisD);
          bestError = max (snd best - diff) (diff - snd best)
      in if thisError \<le> bestError then (code, thisD) else best)"

definition bestNybble :: "int \<Rightarrow> int \<Rightarrow> nat \<times> int" where
  "bestNybble step diff = fold (tryCode step diff) [0..<16] (0, 0x100000)"

text \<open>
  \<^verbatim>\<open>encodeSample(State &state, int sample)\<close> returns the nybble and updates the state.
  The table read \<^verbatim>\<open>stepSizeTable[index]\<close> is only defined for \<open>0 \<le> index \<le> 88\<close>.
  \<^verbatim>\<open>sample - prevSample\<close> and \<^verbatim>\<open>prevSample + bestDiff\<close> are C \<^verbatim>\<open>int\<close> operations,
  written here in \<^typ>\<open>int\<close>: the definition describes the code for the arguments at
  which neither leaves the 32-bit range, in particular for every 16-bit sample and
  every predictor in \<open>[-32768, 32767]\<close>.
\<close>

definition encodeSample :: "State \<Rightarrow> int \<Rightarrow> State \<times> nat" where
  "encodeSample state s =
     (let idx = index state;
          step = stepSizeTable ! nat idx;
          prevSample = sample state;
          diff = s - prevSample;
          (bestCode, bestDiff) = bestNybble step diff;
          idx' = idx + sint (signed_drop_bit 8 (codeTable ! bestCode))
      in (\<lparr> sample = min 32767 (max (-32768) (prevSample + bestDiff)),
            index = min INDEX_MAX (max 0 idx') \<rparr>, bestCode))"

subsection \<open>ADPCMEncoder::encodePair\<close>

text \<open>
  Two samples make one output byte, first nybble low. The returned error is
  \<^verbatim>\<open>e1*e1 + e2*e2\<close>, computed in \<^verbatim>\<open>int64_t\<close> and returned as \<^verbatim>\<open>uint64_t\<close>.
  \<^verbatim>\<open>out.push_back\<close> truncates the \<^verbatim>\<open>unsigned\<close> value to a byte.
\<close>

definition encodePair :: "State \<Rightarrow> int \<Rightarrow> int \<Rightarrow> u8 list \<Rightarrow> State \<times> u8 list \<times> u64" where
  "encodePair state s1 s2 out =
     (let (st1, n1) = encodeSample state s1;
          e1 = sample st1 - s1;
          (st2, n2) = encodeSample st1 s2;
          e2 = sample st2 - s2
      in (st2, out @ [word_of_nat (n1 OR push_bit 4 n2)],
          word_of_int (e1 * e1 + e2 * e2)))"

subsection \<open>ADPCMEncoder::encodeWithIC\<close>

text \<open>
  \<^verbatim>\<open>inPtr\<close> views the input bytes as \<^verbatim>\<open>int16_t\<close>; on the little-endian hosts the tool
  runs on (and as the spec fixes the format) sample \<open>k\<close> is made of bytes \<open>2k\<close> (low)
  and \<open>2k+1\<close> (high).
\<close>

definition readSample :: "u8 list \<Rightarrow> nat \<Rightarrow> int" where
  "readSample inp k =
     sint ((ucast (inp ! (2 * k)) OR push_bit 8 (ucast (inp ! (2 * k + 1)))) :: u16)"

text \<open>
  \<^verbatim>\<open>while (numPairs--) { s1 = *(inPtr++); s2 = *(inPtr++); error += encodePair(...); }\<close>
  The second argument is the position of \<^verbatim>\<open>inPtr\<close>, counted in samples; the error is
  a \<^verbatim>\<open>uint64_t\<close>.
\<close>

fun encodePairs :: "nat \<Rightarrow> nat \<Rightarrow> u8 list \<Rightarrow> State \<Rightarrow> u64 \<Rightarrow> u8 list \<Rightarrow> State \<times> u64 \<times> u8 list" where
  "encodePairs 0 p inp state error out = (state, error, out)"
| "encodePairs (Suc n) p inp state error out =
     (let s1 = readSample inp p;
          s2 = readSample inp (p + 1);
          (state', out', e) = encodePair state s1 s2 out
      in encodePairs n (p + 2) inp state' (error + e) out')"

text \<open>
  The whole of \<^verbatim>\<open>encodeWithIC\<close>, keeping the final codec state as well (the C++
  function works on its own copy of the state and drops it). The caller's \<^verbatim>\<open>out\<close> is
  emptied by \<^verbatim>\<open>out.resize(0)\<close> before the header is written. The function asserts
  \<^verbatim>\<open>inBytes <= in.size()\<close>; both call sites pass \<open>min 200 size\<close> or \<open>size\<close>.
\<close>

definition encodeWithIC_run :: "State \<Rightarrow> u8 list \<Rightarrow> u8 list \<Rightarrow> nat \<Rightarrow> State \<times> u64 \<times> u8 list" where
  "encodeWithIC_run state inp out inBytes =
     (let numSamples = inBytes div 2;
          numPairs = numSamples div 2;
          out0 = [];
          out1 = out0 @ [word_of_int (sample state),
                         word_of_int (drop_bit 8 (sample state)),
                         word_of_int (index state)];
          (st, error, out2) = encodePairs numPairs 0 inp state 0 out1
      in if odd numSamples
         then (let s1 = readSample inp (2 * numPairs);
                   (st', out3, e) = encodePair st s1 s1 out2
               in (st', error + e, out3))
         else (st, error, out2))"

definition encodeWithIC :: "State \<Rightarrow> u8 list \<Rightarrow> u8 list \<Rightarrow> nat \<Rightarrow> u64 \<times> u8 list" where
  "encodeWithIC state inp out inBytes = snd (encodeWithIC_run state inp out inBytes)"

subsection \<open>ADPCMEncoder::optimizeIC\<close>

text \<open>
  The first loop of \<^verbatim>\<open>optimizeIC\<close>:
  \<^verbatim>\<open>for (state.index = 0; state.index < INDEX_MAX; state.index++)\<close>, with loop state
  \<^verbatim>\<open>(error, bestIndex)\<close>, started at \<^verbatim>\<open>(uint64_t(-1), 0)\<close>.
\<close>

definition tryIndex :: "State \<Rightarrow> u8 list \<Rightarrow> nat \<Rightarrow> int \<Rightarrow> u64 \<times> int \<Rightarrow> u64 \<times> int" where
  "tryIndex state inp inBytes i best =
     (let nextError = fst (encodeWithIC (state\<lparr>index := i\<rparr>) inp [] inBytes)
      in if nextError < fst best then (nextError, i) else best)"

definition scanIndex :: "State \<Rightarrow> u8 list \<Rightarrow> nat \<Rightarrow> u64 \<times> int" where
  "scanIndex state inp inBytes =
     fold (tryIndex state inp inBytes) (map int [0..<nat INDEX_MAX]) (- 1, 0)"

text \<open>
  The hill-climbing loop \<^verbatim>\<open>for (;;) { ... }\<close>. Each \<^verbatim>\<open>continue\<close> is taken with a
  strictly smaller error, which is the termination measure.
\<close>

function hillClimb :: "State \<Rightarrow> u8 list \<Rightarrow> nat \<Rightarrow> u64 \<Rightarrow> State" where
  "hillClimb state inp inBytes error =
     (let st1 = state\<lparr>sample := sample state + 1\<rparr>;
          e1 = fst (encodeWithIC st1 inp [] inBytes)
      in if e1 < error then hillClimb st1 inp inBytes e1
         else
           let st2 = st1\<lparr>sample := sample st1 - 2\<rparr>;
               e2 = fst (encodeWithIC st2 inp [] inBytes)
           in if e2 < error then hillClimb st2 inp inBytes e2
              else
                let st3 = st2\<lparr>sample := sample st2 + 1\<rparr>;
                    st4 = st3\<lparr>index := index st3 + 1\<rparr>
                in if index st3 < INDEX_MAX \<and> fst (encodeWithIC st4 inp [] inBytes) < error
                   then hillClimb st4 inp inBytes (fst (encodeWithIC st4 inp [] inBytes))
                   else
                     let st5 = st3\<lparr>index := index st3 - 1\<rparr>
                     in if index st3 > 0 \<and> fst (encodeWithIC st5 inp [] inBytes) < error
                        then hillClimb st5 inp inBytes (fst (encodeWithIC st5 inp [] inBytes))
                        else st3)"
  by pat_completeness auto
termination
  by (relation "measure (\<lambda>(state, inp, inBytes, error). unat error)")
    (auto simp: word_less_nat_alt)

declare hillClimb.simps [simp del]

definition optimizeIC :: "State \<Rightarrow> u8 list \<Rightarrow> State" where
  "optimizeIC state inp =
     (if length inp < 4 then state\<lparr>sample := 0, index := 0\<rparr>
      else
        let st = state\<lparr>sample := readSample inp 0\<rparr>;
            inBytes = min 200 (length inp mod 2 ^ 32);
            (error, bestIndex) = scanIndex st inp inBytes
        in hillClimb (st\<lparr>index := bestIndex\<rparr>) inp inBytes error)"

subsection \<open>ADPCMEncoder::encode\<close>

text \<open>
  \<^verbatim>\<open>State state; optimizeIC(state, in); encodeWithIC(state, in, out, in.size());\<close>
  The local \<^verbatim>\<open>state\<close> is uninitialised; \<^verbatim>\<open>optimizeIC\<close> writes \<^verbatim>\<open>sample\<close> and
  \<^verbatim>\<open>index\<close> on every path before they are read, so the model takes the starting
  value as a parameter. The size is passed as \<^verbatim>\<open>unsigned\<close>.
\<close>

definition ADPCMEncoder_encode :: "State \<Rightarrow> u8 list \<Rightarrow> u8 list \<Rightarrow> u8 list" where
  "ADPCMEncoder_encode state0 inp out =
     snd (encodeWithIC (optimizeIC state0 inp) inp out (length inp mod 2 ^ 32))"

section \<open>STIR DUB encoder (dubencoder.cpp)\<close>

definition BLOCK_SIZE :: nat where
  "BLOCK_SIZE = 8"

subsection \<open>Codes and the bit buffer\<close>

text \<open>
  Modelled from the spec: \<^verbatim>\<open>struct Code\<close> (a type tag and an \<^verbatim>\<open>int\<close> value) is
  declared in dubencoder.h, which is not among the sources.
\<close>

datatype CodeType = DELTA | REF | REPEAT | INVALID

record Code =
  code_type :: CodeType
  code_value :: int

text \<open>
  Modelled from the spec: class \<^verbatim>\<open>BitBuffer\<close> is not among the sources. The spec
  (section 4.3) describes an accumulator of bits; the model keeps the buffered bits as a
  list, the bit at the lowest-numbered position first, and leaves the width of the
  accumulator unbounded. \<^verbatim>\<open>getCount()\<close> is the length of the list.

  \<^verbatim>\<open>append(value, n)\<close> places the low \<open>n\<close> bits of \<open>value\<close>, the most significant
  of them at the lowest unused position.
\<close>

type_synonym BitBuffer = "bool list"

definition bits_append :: "nat \<Rightarrow> nat \<Rightarrow> BitBuffer \<Rightarrow> BitBuffer" where
  "bits_append v n bits = bits @ map (bit v) (rev [0..<n])"

text \<open>
  Modelled from the spec: \<^verbatim>\<open>appendVar(value, chunk)\<close> emits the groups of \<open>chunk\<close>
  bits, least significant group first, each preceded by a flag that says whether more
  groups follow; at least one group is emitted. With \<open>chunk = 0\<close> a non-zero value
  never shrinks and the loop would not end: that is the result \<open>None\<close>.
\<close>

function appendVar :: "nat \<Rightarrow> nat \<Rightarrow> BitBuffer \<Rightarrow> BitBuffer option" where
  "appendVar v chunk bits =
     (let rest = drop_bit chunk v;
          bits' = bits_append (take_bit chunk v) chunk
                    (bits_append (if rest \<noteq> 0 then 1 else 0) 1 bits)
      in if rest = 0 then Some bits'
         else if chunk = 0 then None
         else appendVar rest chunk bits')"
  by pat_completeness auto
termination
proof (relation "measure (\<lambda>(v, chunk, bits). v)")
  show "wf (measure (\<lambda>(v, chunk, bits). v))" by simp
next
  fix v chunk :: nat and bits bits' :: "bool list" and r :: nat
  assume r: "r = drop_bit chunk v" "r \<noteq> 0" "chunk \<noteq> 0"
  have "0 < v" using r by (auto intro: Nat.gr0I)
  moreover have "(1::nat) < 2 ^ chunk" using r(3) by (intro one_less_power) simp_all
  ultimately have "v div 2 ^ chunk < v" by (rule_tac div_less_dividend)
  then have "r < v" using r(1) by (simp add: drop_bit_eq_div)
  then show "((r, chunk, bits'), v, chunk, bits) \<in> measure (\<lambda>(v, chunk, bits). v)"
    by simp
qed

declare appendVar.simps [simp del]

text \<open>
  Modelled from the spec: \<^verbatim>\<open>flush(into, final)\<close> removes whole 16-bit words from the
  accumulator and appends them to the target; with \<open>final\<close>, remaining bits are
  padded with zeros to a full word. Bit \<open>i\<close> of a word is the \<open>i\<close>-th buffered bit.
\<close>

definition wordOfBits :: "bool list \<Rightarrow> u16" where
  "wordOfBits bs = horner_sum of_bool 2 bs"

function flushWords :: "BitBuffer \<Rightarrow> u16 list \<Rightarrow> BitBuffer \<times> u16 list" where
  "flushWords bits buf =
     (if 16 \<le> length bits
      then flushWords (drop 16 bits) (buf @ [wordOfBits (take 16 bits)])
      else (bits, buf))"
  by pat_completeness auto
termination
  by (relation "measure (\<lambda>(bits, buf). length bits)") auto

declare flushWords.simps [simp del]

definition flush :: "BitBuffer \<Rightarrow> u16 list \<Rightarrow> bool \<Rightarrow> BitBuffer \<times> u16 list" where
  "flush bits buf final =
     (let (bits', buf') = flushWords bits buf
      in if final \<and> bits' \<noteq> []
         then ([], buf' @ [wordOfBits (bits' @ replicate (16 - length bits') False)])
         else (bits', buf'))"

subsection \<open>DUBEncoder::packCode and codeLen\<close>

text \<open>
  \<^verbatim>\<open>case Code::INVALID: assert(0)\<close> is the result \<open>None\<close>. The values handed to
  \<^verbatim>\<open>appendVar\<close> are never negative at the call sites of the encoder.
\<close>

definition packCode_chunk :: nat where
  "packCode_chunk = 3"

definition packCode :: "Code \<Rightarrow> BitBuffer \<Rightarrow> BitBuffer option" where
  "packCode code bits =
     (case code_type code of
        DELTA \<Rightarrow>
          (let bits1 = bits_append 0 1 bits
           in if code_value code < 0
              then appendVar (nat (- code_value code)) packCode_chunk (bits_append 1 1 bits1)
              else appendVar (nat (code_value code)) packCode_chunk (bits_append 0 1 bits1))
      | REF \<Rightarrow> appendVar (nat (code_value code)) packCode_chunk (bits_append 1 1 bits)
      | REPEAT \<Rightarrow> appendVar (nat (code_value code)) packCode_chunk bits
      | INVALID \<Rightarrow> None)"

definition codeLen :: "Code \<Rightarrow> nat option" where
  "codeLen code = map_option length (packCode code [])"

subsection \<open>DUBEncoder::findBestCode\<close>

text \<open>
  The scan \<^verbatim>\<open>for (unsigned i = 0; i < dict.size(); i++)\<close> for an identical tile, most
  recent first; it stops at the first match that is not longer than the best code.
\<close>

function findRef :: "u16 list \<Rightarrow> u16 \<Rightarrow> nat \<Rightarrow> Code \<Rightarrow> nat \<Rightarrow> Code option" where
  "findRef dict tile i code bestLength =
     (if i < length dict
      then (if tile = dict ! (length dict - 1 - i)
            then (case codeLen \<lparr>code_type = REF, code_value = int i\<rparr> of
                    None \<Rightarrow> None
                  | Some len \<Rightarrow>
                      if len \<le> bestLength then Some \<lparr>code_type = REF, code_value = int i\<rparr>
                      else findRef dict tile (i + 1) code bestLength)
            else findRef dict tile (i + 1) code bestLength)
      else Some code)"
  by pat_completeness auto
termination
  by (relation "measure (\<lambda>(dict, tile, i, code, bestLength). length dict - i)") auto

declare findRef.simps [simp del]

definition findBestCode :: "u16 list \<Rightarrow> u16 \<Rightarrow> Code option" where
  "findBestCode dict tile =
     (let code = (if dict = []
                  then \<lparr>code_type = DELTA, code_value = uint tile\<rparr>
                  else \<lparr>code_type = DELTA, code_value = uint tile - uint (last dict)\<rparr>)
      in case codeLen code of
           None \<Rightarrow> None
         | Some bestLength \<Rightarrow> findRef dict tile 0 code bestLength)"

subsection \<open>DUBEncoder::encodeBlock\<close>

record BlockState =
  bits :: BitBuffer
  dict :: "u16 list"
  prevCode :: Code
  repeatCount :: nat
  repeating :: bool
  data :: "u16 list"

text \<open>\<^verbatim>\<open>packCode(code, bits); bits.flush(data);\<close>\<close>

definition emitCode :: "Code \<Rightarrow> BlockState \<Rightarrow> BlockState option" where
  "emitCode code st =
     (case packCode code (bits st) of
        None \<Rightarrow> None
      | Some bits1 \<Rightarrow>
          (let (bits2, data2) = flush bits1 (data st) False
           in Some (st\<lparr>bits := bits2, data := data2\<rparr>)))"

text \<open>The body of the two nested loops of \<^verbatim>\<open>encodeBlock\<close>, for one tile.\<close>

definition encodeBlock_tile :: "u16 \<Rightarrow> BlockState \<Rightarrow> BlockState option" where
  "encodeBlock_tile tile st =
     (case findBestCode (dict st) tile of
        None \<Rightarrow> None
      | Some code \<Rightarrow>
          (let st1 = st\<lparr>dict := dict st @ [tile]\<rparr>;
               sameCode = (code_type code = code_type (prevCode st1)
                           \<and> code_value code = code_value (prevCode st1));
               st2 = st1\<lparr>prevCode := code\<rparr>
           in if repeating st2
              then (if sameCode
                    then Some (st2\<lparr>repeatCount := repeatCount st2 + 1\<rparr>)
                    else (case emitCode \<lparr>code_type = REPEAT, code_value = int (repeatCount st2)\<rparr> st2 of
                            None \<Rightarrow> None
                          | Some st3 \<Rightarrow> emitCode code (st3\<lparr>repeating := False\<rparr>)))
              else if sameCode
                   then emitCode code (st2\<lparr>repeating := True, repeatCount := 0\<rparr>)
                   else emitCode code st2))"

fun encodeBlock_loop :: "u16 list \<Rightarrow> BlockState \<Rightarrow> BlockState option" where
  "encodeBlock_loop [] st = Some st"
| "encodeBlock_loop (tile # tiles) st =
     (case encodeBlock_tile tile st of
        None \<Rightarrow> None
      | Some st' \<Rightarrow> encodeBlock_loop tiles st')"

text \<open>
  The tiles of a block in the order of the loops: \<^verbatim>\<open>pTopLeft[x + y*mWidth]\<close> for
  \<open>y < height\<close>, \<open>x < width\<close>, where \<^verbatim>\<open>pTopLeft\<close> points at \<open>tiles[base]\<close>. The caller
  has to supply \<open>mWidth * mHeight * mFrames\<close> tiles for the reads to be inside the
  vector.
\<close>

definition blockTiles :: "u16 list \<Rightarrow> nat \<Rightarrow> nat \<Rightarrow> nat \<Rightarrow> nat \<Rightarrow> u16 list" where
  "blockTiles tiles base width height mWidth =
     concat (map (\<lambda>y. map (\<lambda>x. tiles ! (base + (x + y * mWidth))) [0..<width]) [0..<height])"

definition initialBlockState :: "u16 list \<Rightarrow> BlockState" where
  "initialBlockState data0 =
     \<lparr>bits = [], dict = [], prevCode = \<lparr>code_type = INVALID, code_value = 0\<rparr>,
      repeatCount = 0, repeating = False, data = data0\<rparr>"

definition encodeBlock :: "u16 list \<Rightarrow> nat \<Rightarrow> nat \<Rightarrow> nat \<Rightarrow> nat \<Rightarrow> u16 list \<Rightarrow> u16 list option" where
  "encodeBlock tiles base width height mWidth data0 =
     (case encodeBlock_loop (blockTiles tiles base width height mWidth) (initialBlockState data0) of
        None \<Rightarrow> None
      | Some st \<Rightarrow>
          (case (if repeating st
                 then packCode \<lparr>code_type = REPEAT, code_value = int (repeatCount st)\<rparr> (bits st)
                 else Some (bits st)) of
             None \<Rightarrow> None
           | Some bits1 \<Rightarrow> Some (snd (flush bits1 (data st) True))))"

subsection \<open>The encoder object\<close>

text \<open>
  Modelled from the spec: the class declaration and its constructor are in dubencoder.h,
  which is not among the sources. The members used by the functions below are the three
  dimensions, the block data, the index (16-bit addresses) and the index width flag; a
  new encoder has empty results.
\<close>

record DUBEncoder =
  mWidth :: nat
  mHeight :: nat
  mFrames :: nat
  blockResult :: "u16 list"
  indexResult :: "u16 list"
  mIndex16 :: bool

definition DUBEncoder_new :: "nat \<Rightarrow> nat \<Rightarrow> nat \<Rightarrow> DUBEncoder" where
  "DUBEncoder_new width height frames =
     \<lparr>mWidth = width, mHeight = height, mFrames = frames,
      blockResult = [], indexResult = [], mIndex16 = False\<rparr>"

text \<open>
  \<^verbatim>\<open>getIndexSize\<close>, \<^verbatim>\<open>packIndex\<close> (with its local \<^verbatim>\<open>nextWord\<close>), \<^verbatim>\<open>isTooLarge\<close> and
  \<^verbatim>\<open>isIndex16\<close>. The arithmetic is done in the C type \<^verbatim>\<open>unsigned\<close>: every intermediate
  value is reduced modulo \<open>2^32\<close>, so a difference below zero would wrap around. The sum in
  \<^verbatim>\<open>isTooLarge\<close> has the type of \<^verbatim>\<open>blockResult.size()\<close> and is not reduced.
\<close>

definition unsigned :: "int \<Rightarrow> int" where
  "unsigned k = k mod 2 ^ 32"

definition getIndexSize :: "DUBEncoder \<Rightarrow> int" where
  "getIndexSize enc =
     (let s = unsigned (int (length (indexResult enc)))
      in if \<not> mIndex16 enc then unsigned (s + 1) div 2 else s)"

definition nextWord :: "DUBEncoder \<Rightarrow> nat \<Rightarrow> int" where
  "nextWord enc i = (if mIndex16 enc then unsigned (int i + 1) else unsigned (int i + 2) div 2)"

definition packIndex :: "DUBEncoder \<Rightarrow> nat \<Rightarrow> int" where
  "packIndex enc i = unsigned (unsigned (getIndexSize enc + uint (indexResult enc ! i)) - nextWord enc i)"

definition isTooLarge :: "DUBEncoder \<Rightarrow> bool" where
  "isTooLarge enc \<longleftrightarrow> getIndexSize enc + int (length (blockResult enc)) \<ge> 0x10000"

definition isIndex16 :: "DUBEncoder \<Rightarrow> bool" where
  "isIndex16 enc = mIndex16 enc"

subsection \<open>DUBEncoder::encodeTiles\<close>

text \<open>
  The block positions \<open>(f, y, x)\<close> in the order of the three nested loops; \<open>x\<close> and
  \<open>y\<close> advance by \<^verbatim>\<open>BLOCK_SIZE\<close>.
\<close>

definition blockStarts :: "nat \<Rightarrow> nat list" where
  "blockStarts n = map (\<lambda>k. k * BLOCK_SIZE) [0..<(n + BLOCK_SIZE - 1) div BLOCK_SIZE]"

definition blockPositions :: "DUBEncoder \<Rightarrow> (nat \<times> nat \<times> nat) list" where
  "blockPositions enc =
     concat (map (\<lambda>f. concat (map (\<lambda>y. map (\<lambda>x. (f, y, x)) (blockStarts (mWidth enc)))
                                 (blockStarts (mHeight enc))))
                 [0..<mFrames enc])"

text \<open>
  The call \<^verbatim>\<open>encodeBlock(&tiles[x + y*mWidth + f*mWidth*mHeight], w, h, blockData)\<close> on a
  fresh \<^verbatim>\<open>blockData\<close>.
\<close>

definition blockPayload :: "DUBEncoder \<Rightarrow> u16 list \<Rightarrow> nat \<times> nat \<times> nat \<Rightarrow> u16 list option" where
  "blockPayload enc tiles p =
     (case p of (f, y, x) \<Rightarrow>
        (let w = min BLOCK_SIZE (mWidth enc - x);
             h = min BLOCK_SIZE (mHeight enc - y)
         in encodeBlock tiles (x + y * mWidth enc + f * mWidth enc * mHeight enc) w h (mWidth enc) []))"

text \<open>
  The deduplication step, on the encoder and the memo
  \<^verbatim>\<open>std::map<std::vector<uint16_t>, uint16_t>\<close>. The address is a \<^verbatim>\<open>uint16_t\<close>: the
  size of the block data is truncated to 16 bits.
\<close>

definition storeBlock :: "u16 list \<Rightarrow> DUBEncoder \<times> (u16 list \<rightharpoonup> u16) \<Rightarrow> DUBEncoder \<times> (u16 list \<rightharpoonup> u16)" where
  "storeBlock blockData em =
     (case em of (enc, dedupeMemo) \<Rightarrow>
        (case dedupeMemo blockData of
           None \<Rightarrow>
             (let addr = (word_of_nat (length (blockResult enc)) :: u16)
              in (enc\<lparr>indexResult := indexResult enc @ [addr],
                      blockResult := blockResult enc @ blockData\<rparr>,
                  dedupeMemo(blockData \<mapsto> addr)))
         | Some addr \<Rightarrow> (enc\<lparr>indexResult := indexResult enc @ [addr]\<rparr>, dedupeMemo)))"

fun encodeTiles_loop :: "u16 list \<Rightarrow> (nat \<times> nat \<times> nat) list \<Rightarrow> DUBEncoder \<times> (u16 list \<rightharpoonup> u16)
    \<Rightarrow> (DUBEncoder \<times> (u16 list \<rightharpoonup> u16)) option" where
  "encodeTiles_loop tiles [] em = Some em"
| "encodeTiles_loop tiles (p # ps) em =
     (case blockPayload (fst em) tiles p of
        None \<Rightarrow> None
      | Some blockData \<Rightarrow> encodeTiles_loop tiles ps (storeBlock blockData em))"

text \<open>
  The scan for the index width: \<^verbatim>\<open>mIndex16\<close> is false while the entries are probed,
  and the loop stops at the first entry that does not fit 8 bits.
\<close>

fun probeIndex :: "DUBEncoder \<Rightarrow> nat list \<Rightarrow> DUBEncoder" where
  "probeIndex enc [] = enc"
| "probeIndex enc (i # is) =
     (if packIndex enc i \<ge> 0x100 then enc\<lparr>mIndex16 := True\<rparr> else probeIndex enc is)"

definition encodeTiles :: "DUBEncoder \<Rightarrow> u16 list \<Rightarrow> DUBEncoder option" where
  "encodeTiles enc tiles =
     (case encodeTiles_loop tiles (blockPositions enc) (enc, Map.empty) of
        None \<Rightarrow> None
      | Some (enc1, dedupeMemo) \<Rightarrow>
          (let enc2 = enc1\<lparr>mIndex16 := False\<rparr>
           in Some (probeIndex enc2 [0..<length (indexResult enc2)])))"

subsection \<open>DUBEncoder::getResult\<close>

text \<open>The bytes of an 8-bit index, one per block, before padding.\<close>

definition index8 :: "DUBEncoder \<Rightarrow> u8 list" where
  "index8 enc = map (\<lambda>i. word_of_int (packIndex enc i)) [0..<length (indexResult enc)]"

fun packWords :: "u8 list \<Rightarrow> u16 list" where
  "packWords (lo # hi # rest) = (ucast lo OR push_bit 8 (ucast hi)) # packWords rest"
| "packWords _ = []"

text \<open>
  \<^verbatim>\<open>getResult\<close> appends to \<^verbatim>\<open>result\<close>; a failure of
  \<^verbatim>\<open>assert(result.size() == getIndexSize())\<close> is the result \<open>None\<close>.
\<close>

definition getResult :: "DUBEncoder \<Rightarrow> u16 list \<Rightarrow> u16 list option" where
  "getResult enc result =
     (let result1 =
            (if mIndex16 enc
             then result @ map (\<lambda>i. word_of_int (packIndex enc i)) [0..<length (indexResult enc)]
             else (let bytes = index8 enc;
                       padded = (if odd (length bytes) then bytes @ [0] else bytes)
                   in result @ packWords padded))
      in if int (length result1) = getIndexSize enc
         then Some (result1 @ blockResult enc)
         else None)"

section \<open>Notions used to state the properties\<close>

subsection \<open>ADPCM\<close>

text \<open>The error of a candidate code, as \<^verbatim>\<open>encodeSample\<close> computes it in its loop.\<close>

definition thisError :: "int \<Rightarrow> int \<Rightarrow> nat \<Rightarrow> int" where
  "thisError step diff code = max (thisDiff code step - diff) (diff - thisDiff code step)"

text \<open>The values of a C \<^verbatim>\<open>int\<close> (32 bits, two's complement).\<close>

definition int32 :: "int \<Rightarrow> bool" where
  "int32 x \<longleftrightarrow> - 2147483648 \<le> x \<and> x \<le> 2147483647"

text \<open>
  The codec states reached after each call of \<^verbatim>\<open>encodeSample\<close>, and the samples that
  \<^verbatim>\<open>encodeWithIC\<close> feeds to it, in order: the complete pairs, then the last sample twice
  when the sample count is odd.
\<close>

fun statesAfter :: "State \<Rightarrow> int list \<Rightarrow> State list" where
  "statesAfter state [] = []"
| "statesAfter state (s # ss) =
     (let state' = fst (encodeSample state s) in state' # statesAfter state' ss)"

definition fedSamples :: "u8 list \<Rightarrow> nat \<Rightarrow> int list" where
  "fedSamples inp inBytes =
     (let numSamples = inBytes div 2;
          numPairs = numSamples div 2
      in map (readSample inp) [0..<2 * numPairs]
         @ (if odd numSamples
            then [readSample inp (2 * numPairs), readSample inp (2 * numPairs)] else []))"

definition inRange :: "State \<Rightarrow> bool" where
  "inRange state \<longleftrightarrow>
     - 32768 \<le> sample state \<and> sample state \<le> 32767 \<and> 0 \<le> index state \<and> index state \<le> 88"

definition indexOk :: "State \<Rightarrow> bool" where
  "indexOk state \<longleftrightarrow> 0 \<le> index state \<and> index state \<le> 88"

subsection \<open>DUB\<close>

text \<open>
  The bits that \<^verbatim>\<open>appendVar\<close> (with chunk size 3) and \<^verbatim>\<open>packCode\<close> add to a buffer, and
  the number of bits a block has produced so far: 16 for each flushed word, plus the
  bits still buffered.
\<close>

function varBits :: "nat \<Rightarrow> bool list" where
  "varBits v =
     (v div 8 \<noteq> 0) # bit v 2 # bit v 1 # bit v 0
     # (if v div 8 = 0 then [] else varBits (v div 8))"
  by pat_completeness auto
termination
  by (relation "measure id") auto

declare varBits.simps [simp del]

definition codeBits :: "Code \<Rightarrow> bool list" where
  "codeBits code =
     (case code_type code of
        DELTA \<Rightarrow> False # (code_value code < 0) # varBits (nat \<bar>code_value code\<bar>)
      | REF \<Rightarrow> True # varBits (nat (code_value code))
      | _ \<Rightarrow> varBits (nat (code_value code)))"

definition totalBits :: "BlockState \<Rightarrow> nat" where
  "totalBits st = 16 * length (data st) + length (bits st)"

text \<open>
  The distinct payloads of a list of blocks in the order of their first occurrence, the
  word offset at which a payload starts in their concatenation, and the payloads of the
  blocks of an input in the order of the loops of \<^verbatim>\<open>encodeTiles\<close>.
\<close>

definition firstOccurrences :: "'a list \<Rightarrow> 'a list" where
  "firstOccurrences xs = foldl (\<lambda>acc x. if x \<in> set acc then acc else acc @ [x]) [] xs"

definition offsetOf :: "'a list list \<Rightarrow> 'a list \<Rightarrow> nat" where
  "offsetOf us p = length (concat (takeWhile (\<lambda>q. q \<noteq> p) us))"

definition payloads :: "DUBEncoder \<Rightarrow> u16 list \<Rightarrow> u16 list list" where
  "payloads enc tiles = map (\<lambda>p. the (blockPayload enc tiles p)) (blockPositions enc)"

text \<open>
  The encoder after the deduplication loop, as a function of the payloads of its blocks;
  the bits of a block that consists of one tile; and an input of 32769 frames of one
  tile each, with the tile values 512, 513, ..., 33280.
\<close>

definition dedupResult :: "DUBEncoder \<Rightarrow> u16 list list \<Rightarrow> DUBEncoder" where
  "dedupResult enc0 ps =
     enc0\<lparr>indexResult := map (\<lambda>p. word_of_nat (offsetOf (firstOccurrences ps) p)) ps,
          blockResult := concat (firstOccurrences ps)\<rparr>"

definition tileBits :: "u16 \<Rightarrow> bool list" where
  "tileBits t = False # False # varBits (unat t)"

definition overflowTiles :: "u16 list" where
  "overflowTiles = map word_of_nat [512..<512 + 32769]"

section \<open>ADPCM: auxiliary facts\<close>

lemma stepSizeTable_range:
  assumes "idx \<le> 88"
  shows "0 \<le> stepSizeTable ! idx \<and> stepSizeTable ! idx \<le> 32767"
proof -
  have all: "\<forall>x \<in> set stepSizeTable. 0 \<le> x \<and> x \<le> 32767"
    by (simp add: stepSizeTable_def)
  have "length stepSizeTable = 89"
    by (simp add: stepSizeTable_def)
  with assms have "stepSizeTable ! idx \<in> set stepSizeTable"
    by (intro nth_mem) simp
  with all show ?thesis by blast
qed

lemma thisDiff_floor:
  assumes "0 \<le> step" "step \<le> 32767"
  shows "thisDiff code step = (multiplier code * step) div 8"
proof -
  let ?m = "ucast (codeTable ! code) :: u8"
  have m_lo: "- 128 \<le> sint ?m" using sint_ge [of ?m] by simp
  have m_hi: "sint ?m < 128" using sint_lt [of ?m] by simp
  have up: "sint (scast ?m :: u32) = sint ?m"
    by (rule sint_up_scast) (simp add: is_up)
  have st: "sint (word_of_int step :: u32) = step"
    using assms by (simp add: sint_sbintrunc' signed_take_bit_int_eq_self)
  have lo: "- (2 ^ 31) \<le> sint ?m * step"
  proof -
    have "- 128 * step \<le> sint ?m * step"
      using m_lo assms(1) by (intro mult_right_mono) auto
    with assms show ?thesis by simp
  qed
  have hi: "sint ?m * step < 2 ^ 31"
  proof -
    have "sint ?m * step \<le> 128 * step"
      using m_hi assms(1) by (intro mult_right_mono) auto
    with assms show ?thesis by simp
  qed
  have "sint ((scast ?m :: u32) * word_of_int step) = sint ?m * step"
    using lo hi by (simp add: sint_word_mult up st signed_take_bit_int_eq_self)
  then show ?thesis
    by (simp add: thisDiff_def multiplier_def sint_signed_drop_bit_eq drop_bit_eq_div)
qed

lemma multiplier_0: "multiplier 0 = 1"
  by (simp add: multiplier_def codeTable_def)

lemma tryCode_thisError:
  "tryCode step diff n (c, thisDiff c step) =
     (if thisError step diff n \<le> thisError step diff c then (n, thisDiff n step)
      else (c, thisDiff c step))"
  by (simp add: tryCode_def thisError_def Let_def)

lemma fold_tryCode:
  assumes first: "thisError step diff 0 \<le> max (b0 - diff) (diff - b0)"
  shows "0 < n \<Longrightarrow> \<exists>c. fold (tryCode step diff) [0..<n] (c0, b0) = (c, thisDiff c step)
            \<and> c < n
            \<and> (\<forall>c' < n. thisError step diff c \<le> thisError step diff c')
            \<and> (\<forall>c' < n. thisError step diff c' = thisError step diff c \<longrightarrow> c' \<le> c)"
proof (induction n)
  case 0
  then show ?case by simp
next
  case (Suc n)
  show ?case
  proof (cases "n = 0")
    case True
    have "tryCode step diff 0 (c0, b0) = (0, thisDiff 0 step)"
      using first by (simp add: tryCode_def thisError_def Let_def)
    with True show ?thesis by simp
  next
    case False
    with Suc.IH obtain c where c: "fold (tryCode step diff) [0..<n] (c0, b0) = (c, thisDiff c step)"
      "c < n" "\<forall>c' < n. thisError step diff c \<le> thisError step diff c'"
      "\<forall>c' < n. thisError step diff c' = thisError step diff c \<longrightarrow> c' \<le> c"
      by auto
    have step: "fold (tryCode step diff) [0..<Suc n] (c0, b0) =
        (if thisError step diff n \<le> thisError step diff c then (n, thisDiff n step)
         else (c, thisDiff c step))"
      using c(1) by (simp add: tryCode_thisError)
    show ?thesis
    proof (cases "thisError step diff n \<le> thisError step diff c")
      case True
      have "\<forall>c' < Suc n. thisError step diff n \<le> thisError step diff c'"
        using True c(3) by (auto simp: less_Suc_eq intro: order_trans)
      with True step show ?thesis by auto
    next
      case False
      have "\<forall>c' < Suc n. thisError step diff c \<le> thisError step diff c'"
        using False c(3) by (auto simp: less_Suc_eq)
      moreover have "\<forall>c' < Suc n. thisError step diff c' = thisError step diff c \<longrightarrow> c' \<le> c"
        using False c(4) by (auto simp: less_Suc_eq)
      ultimately show ?thesis using c(2) False step by auto
    qed
  qed
qed

lemma bestNybble_minimal:
  assumes "0 \<le> step" "step \<le> 32767" "diff \<le> 524288"
  shows "\<exists>c. bestNybble step diff = (c, thisDiff c step)
            \<and> c < 16
            \<and> (\<forall>c' < 16. thisError step diff c \<le> thisError step diff c')
            \<and> (\<forall>c' < 16. thisError step diff c' = thisError step diff c \<longrightarrow> c' \<le> c)"
proof -
  have d0: "thisDiff 0 step = step div 8"
    using assms by (simp add: thisDiff_floor multiplier_0)
  have "0 \<le> step div 8" "step div 8 \<le> 4095"
    using assms by presburger+
  then have "thisError step diff 0 \<le> max (0x100000 - diff) (diff - 0x100000)"
    using assms unfolding thisError_def d0 by linarith
  from fold_tryCode [OF this, of 16 0] show ?thesis
    by (simp add: bestNybble_def)
qed

lemma multiplier_range: "- 128 \<le> multiplier code \<and> multiplier code \<le> 127"
proof -
  let ?m = "ucast (codeTable ! code) :: u8"
  have "- 128 \<le> sint ?m" using sint_ge [of ?m] by simp
  moreover have "sint ?m < 128" using sint_lt [of ?m] by simp
  ultimately show ?thesis by (simp add: multiplier_def)
qed

lemma thisDiff_range:
  assumes "0 \<le> step" "step \<le> 32767"
  shows "- 524272 \<le> thisDiff code step \<and> thisDiff code step \<le> 524272"
proof -
  have lo: "- 128 * step \<le> multiplier code * step"
    using multiplier_range [of code] assms(1) by (intro mult_right_mono) auto
  have hi: "multiplier code * step \<le> 127 * step"
    using multiplier_range [of code] assms(1) by (intro mult_right_mono) auto
  have "- 4194176 \<le> multiplier code * step" "multiplier code * step \<le> 4194176"
    using lo hi assms by linarith+
  then have "- 524272 \<le> (multiplier code * step) div 8" "(multiplier code * step) div 8 \<le> 524272"
    by presburger+
  then show ?thesis using assms by (simp add: thisDiff_floor)
qed

text \<open>
  No subtraction of the search loop leaves the 32-bit range when
  \<open>-2146435071 \<le> diff \<le> 524288\<close>, whichever value \<^verbatim>\<open>bestDiff\<close> holds at that iteration
  (its initial value or the delta of a candidate): there \<^const>\<open>tryCode\<close> computes what
  the code computes.
\<close>

lemma tryCode_no_overflow:
  assumes "0 \<le> step" "step \<le> 32767"
    and "- 2146435071 \<le> diff" "diff \<le> 524288"
    and "bestDiff = 0x100000 \<or> (\<exists>c. bestDiff = thisDiff c step)"
  shows "int32 diff
       \<and> int32 (thisDiff code step - diff) \<and> int32 (diff - thisDiff code step)
       \<and> int32 (bestDiff - diff) \<and> int32 (diff - bestDiff)"
proof -
  have t: "- 524272 \<le> thisDiff code step" "thisDiff code step \<le> 524272"
    using thisDiff_range [OF assms(1,2)] by blast+
  have b: "- 524272 \<le> bestDiff \<and> bestDiff \<le> 1048576"
  proof (cases "bestDiff = 0x100000")
    case True
    then show ?thesis by simp
  next
    case False
    with assms(5) obtain c where "bestDiff = thisDiff c step" by blast
    with thisDiff_range [OF assms(1,2), of c] show ?thesis by simp
  qed
  show ?thesis
    using t b assms(3,4) unfolding int32_def by linarith
qed

lemma encodeSample_inRange: "inRange (fst (encodeSample state s))"
  by (simp add: encodeSample_def inRange_def INDEX_MAX_def Let_def split: prod.splits)

lemma statesAfter_inRange: "st \<in> set (statesAfter state ss) \<Longrightarrow> inRange st"
  by (induction ss arbitrary: state) (auto simp: Let_def encodeSample_inRange)

lemma statesAfter_last:
  "last (state # statesAfter state ss) = foldl (\<lambda>st s. fst (encodeSample st s)) state ss"
  by (induction ss arbitrary: state) (simp_all add: Let_def)

lemma encodePair_state:
  "fst (encodePair state s1 s2 out) = foldl (\<lambda>st s. fst (encodeSample st s)) state [s1, s2]"
  by (simp add: encodePair_def Let_def split: prod.splits)

lemma encodePairs_state:
  "fst (encodePairs n p inp state error out) =
     foldl (\<lambda>st s. fst (encodeSample st s)) state (map (readSample inp) [p..<p + 2 * n])"
proof (induction n arbitrary: p state error out)
  case 0
  then show ?case by simp
next
  case (Suc n)
  have split: "[p..<p + 2 * Suc n] = [p, p + 1] @ [p + 2..<(p + 2) + 2 * n]"
    by (simp add: upt_rec)
  obtain st' out' e where ep: "encodePair state (readSample inp p) (readSample inp (p + 1)) out = (st', out', e)"
    by (metis prod_cases3)
  have st': "st' = foldl (\<lambda>st s. fst (encodeSample st s)) state [readSample inp p, readSample inp (p + 1)]"
    using encodePair_state [of state "readSample inp p" "readSample inp (p + 1)" out] ep by simp
  have "fst (encodePairs (Suc n) p inp state error out) = fst (encodePairs n (p + 2) inp st' (error + e) out')"
    using ep by simp
  also have "\<dots> = foldl (\<lambda>st s. fst (encodeSample st s)) st' (map (readSample inp) [p + 2..<(p + 2) + 2 * n])"
    by (rule Suc.IH)
  finally show ?case
    unfolding split map_append foldl_append st' by simp
qed

lemma encodeWithIC_run_state:
  "fst (encodeWithIC_run state inp out inBytes) =
     foldl (\<lambda>st s. fst (encodeSample st s)) state (fedSamples inp inBytes)"
proof -
  let ?n = "inBytes div 2 div 2"
  let ?hdr = "[word_of_int (sample state), word_of_int (drop_bit 8 (sample state)), word_of_int (index state)] :: u8 list"
  obtain st err out2 where ep: "encodePairs ?n 0 inp state 0 ?hdr = (st, err, out2)"
    by (metis prod_cases3)
  have st: "st = foldl (\<lambda>st s. fst (encodeSample st s)) state (map (readSample inp) [0..<2 * ?n])"
    using encodePairs_state [of ?n 0 inp state 0 ?hdr] ep by simp
  show ?thesis
  proof (cases "odd (inBytes div 2)")
    case False
    then have "fst (encodeWithIC_run state inp out inBytes) = st"
      using ep by (simp add: encodeWithIC_run_def Let_def)
    then show ?thesis
      using False st by (simp add: fedSamples_def Let_def)
  next
    case True
    obtain st' out3 e where e2: "encodePair st (readSample inp (2 * ?n)) (readSample inp (2 * ?n)) out2 = (st', out3, e)"
      by (metis prod_cases3)
    have st': "st' = foldl (\<lambda>st s. fst (encodeSample st s)) st [readSample inp (2 * ?n), readSample inp (2 * ?n)]"
      using encodePair_state [of st "readSample inp (2 * ?n)" "readSample inp (2 * ?n)" out2] e2 by simp
    have "fst (encodeWithIC_run state inp out inBytes) = st'"
      using True ep e2 by (simp add: encodeWithIC_run_def Let_def)
    then show ?thesis
      using True by (simp add: fedSamples_def Let_def st' st)
  qed
qed

lemma fold_tryIndex_snd:
  "snd (fold (tryIndex state inp inBytes) is best) \<in> insert (snd best) (set is)"
proof (induction "is" arbitrary: best)
  case Nil
  then show ?case by simp
next
  case (Cons a "is")
  have "snd (tryIndex state inp inBytes a best) = a \<or> snd (tryIndex state inp inBytes a best) = snd best"
    by (simp add: tryIndex_def Let_def)
  with Cons.IH [of "tryIndex state inp inBytes a best"] show ?case by auto
qed

lemma scanIndex_range: "0 \<le> snd (scanIndex state inp inBytes) \<and> snd (scanIndex state inp inBytes) < 88"
  using fold_tryIndex_snd [of state inp inBytes "map int [0..<nat INDEX_MAX]" "(- 1, 0)"]
  by (auto simp: scanIndex_def INDEX_MAX_def)

lemma hillClimb_index:
  "indexOk state \<Longrightarrow> indexOk (hillClimb state inp inBytes error)"
proof (induction state inp inBytes error rule: hillClimb.induct)
  case (1 state inp inBytes error)
  show ?case
    apply (subst hillClimb.simps)
    using 1
    apply (auto simp: Let_def INDEX_MAX_def indexOk_def)
    done
qed

lemma optimizeIC_index: "indexOk (optimizeIC state inp)"
proof (cases "length inp < 4")
  case True
  then show ?thesis by (simp add: optimizeIC_def indexOk_def)
next
  case False
  obtain e b where sc: "scanIndex (state\<lparr>sample := readSample inp 0\<rparr>) inp (min 200 (length inp mod 2 ^ 32)) = (e, b)"
    by (metis surj_pair)
  with scanIndex_range [of "state\<lparr>sample := readSample inp 0\<rparr>" inp "min 200 (length inp mod 2 ^ 32)"]
  have "indexOk (state\<lparr>sample := readSample inp 0, index := b\<rparr>)" by (simp add: indexOk_def)
  then show ?thesis
    using False sc hillClimb_index [of "state\<lparr>sample := readSample inp 0, index := b\<rparr>"]
    by (simp add: optimizeIC_def Let_def)
qed

lemma encodeWithIC_run_empty:
  "inBytes < 2 \<Longrightarrow> index state = 0 \<Longrightarrow> sample state = 0 \<Longrightarrow>
     snd (snd (encodeWithIC_run state inp out inBytes)) = [0, 0, 0]"
  by (simp add: encodeWithIC_run_def)

lemma encodeWithIC_run_one:
  "inBytes = 2 \<or> inBytes = 3 \<Longrightarrow> index state = 0 \<Longrightarrow> sample state = 0 \<Longrightarrow>
     snd (snd (encodeWithIC_run state inp out inBytes)) =
       fst (snd (encodePair state (readSample inp 0) (readSample inp 0) [0, 0, 0]))"
  by (auto simp: encodeWithIC_run_def Let_def split: prod.splits)

lemma encodePair_out:
  "fst (snd (encodePair state s1 s2 out)) =
     out @ [word_of_nat (snd (encodeSample state s1)
                         OR push_bit 4 (snd (encodeSample (fst (encodeSample state s1)) s2)))]"
  by (simp add: encodePair_def Let_def split: prod.splits)

section \<open>ADPCM and PCM: properties\<close>

text \<open>
  C10. PCMEncoder::encode appends the input to the caller's output vector without
  clearing it: the result is the old contents followed by the input, and the old bytes
  keep their places.
\<close>

theorem C10_pcm_encode_appends:
  "PCMEncoder_encode inp out = out @ inp
   \<and> take (length out) (PCMEncoder_encode inp out) = out
   \<and> drop (length out) (PCMEncoder_encode inp out) = inp"
  by (simp add: PCMEncoder_encode_def)

text \<open>
  C2. The claim has the product shifted right as an unsigned value before it is read as
  a signed integer. The code casts to \<^verbatim>\<open>int\<close> first and shifts the signed value, so
  the deltas of the codes 8..15 are negative; at code 8 and step 7 the two differ.
\<close>

theorem C2_logical_shift_counterexample:
  "thisDiff 8 (stepSizeTable ! 0) = - 1 \<and> specDelta 8 (stepSizeTable ! 0) = 536870911"
  by (simp add: thisDiff_def specDelta_def codeTable_def stepSizeTable_def)

text \<open>
  C2, amended. For every code \<open>c\<close> in 0..15 and every step of the table, the candidate
  delta is the low byte of \<open>codeTable[c]\<close> read as a signed 8-bit value, widened to 32
  bits, multiplied by the step modulo \<open>2^32\<close>, then read as a signed 32-bit integer and
  only then shifted right by 3 arithmetically: it is the floor of \<open>m(c) * step / 8\<close>.
\<close>

theorem C2_candidate_delta:
  assumes "c < 16" and "idx \<le> 88"
  shows "thisDiff c (stepSizeTable ! idx) =
           sint (signed_drop_bit 3 (word_of_int (multiplier c) * word_of_int (stepSizeTable ! idx) :: u32))
         \<and> thisDiff c (stepSizeTable ! idx) = (multiplier c * (stepSizeTable ! idx)) div 8"
proof -
  have "(scast (ucast (codeTable ! c) :: u8) :: u32) = word_of_int (multiplier c)"
    by (simp add: multiplier_def)
  then have "thisDiff c (stepSizeTable ! idx) =
      sint (signed_drop_bit 3 (word_of_int (multiplier c) * word_of_int (stepSizeTable ! idx) :: u32))"
    by (simp add: thisDiff_def)
  moreover have "thisDiff c (stepSizeTable ! idx) = (multiplier c * (stepSizeTable ! idx)) div 8"
    using stepSizeTable_range [OF assms(2)] by (simp add: thisDiff_floor)
  ultimately show ?thesis by simp
qed

theorem C2_candidate_delta_witness:
  "(8::nat) < 16 \<and> (0::nat) \<le> 88
   \<and> thisDiff 8 (stepSizeTable ! 0) = (multiplier 8 * (stepSizeTable ! 0)) div 8
   \<and> (multiplier 8 * (stepSizeTable ! 0)) div 8 = - 1"
  using C2_candidate_delta [of 8 0]
  by (simp add: multiplier_def codeTable_def stepSizeTable_def)

text \<open>
  C3. The first loop of \<^verbatim>\<open>optimizeIC\<close> runs while \<^verbatim>\<open>state.index < INDEX_MAX\<close>, so it
  tries the indices 0..87 and never 88. On the four input bytes 00 80 FF 7F (the samples
  -32768 and 32767) the loop keeps index 87 with error 135418801, although index 88 would
  give the smaller error 47871954.
\<close>

theorem C3_scan_skips_index_88:
  "scanIndex \<lparr>sample = readSample [0x00, 0x80, 0xFF, 0x7F] 0, index = 0\<rparr>
       [0x00, 0x80, 0xFF, 0x7F] 4 = (135418801, 87)
   \<and> fst (encodeWithIC \<lparr>sample = readSample [0x00, 0x80, 0xFF, 0x7F] 0, index = 88\<rparr>
       [0x00, 0x80, 0xFF, 0x7F] [] 4) = 47871954"
  by code_simp

text \<open>
  C4. For a codec state with its index in the table and an input sample \<open>s\<close>, both C
  \<^verbatim>\<open>int\<close>s, with \<open>-2146435071 \<le> diff \<le> 524288\<close> where \<open>diff = s - sample\<close> (every 16-bit
  sample against every 16-bit predictor, and the predictors out of that range that the
  hill climb may try): the emitted nybble is one of the 16 candidates, no candidate has a
  smaller error \<open>max (delta - diff) (diff - delta)\<close>, and every candidate with the same
  error has a code number that is not larger. The upper bound makes the first candidate
  beat the initial \<^verbatim>\<open>bestDiff = 0x100000\<close>; the lower bound keeps \<^verbatim>\<open>bestDiff - diff\<close> and
  every other subtraction of the loop inside the 32-bit range (lemma
  \<open>tryCode_no_overflow\<close>), so that the loop computes these errors exactly.
\<close>

theorem C4_encodeSample_best_code:
  assumes "0 \<le> index st" "index st \<le> 88"
    and "int32 s" "int32 (sample st)"
    and "- 2146435071 \<le> s - sample st" "s - sample st \<le> 524288"
  shows "snd (encodeSample st s) < 16
     \<and> (\<forall>c < 16. thisError (stepSizeTable ! nat (index st)) (s - sample st) (snd (encodeSample st s))
                    \<le> thisError (stepSizeTable ! nat (index st)) (s - sample st) c)
     \<and> (\<forall>c < 16. thisError (stepSizeTable ! nat (index st)) (s - sample st) c
                    = thisError (stepSizeTable ! nat (index st)) (s - sample st) (snd (encodeSample st s))
                  \<longrightarrow> c \<le> snd (encodeSample st s))"
proof -
  let ?step = "stepSizeTable ! nat (index st)"
  let ?diff = "s - sample st"
  have "nat (index st) \<le> 88" using assms by simp
  then have step: "0 \<le> ?step" "?step \<le> 32767"
    using stepSizeTable_range by blast+
  from bestNybble_minimal [OF step assms(6)] obtain c where
    c: "bestNybble ?step ?diff = (c, thisDiff c ?step)" "c < 16"
      "\<forall>c' < 16. thisError ?step ?diff c \<le> thisError ?step ?diff c'"
      "\<forall>c' < 16. thisError ?step ?diff c' = thisError ?step ?diff c \<longrightarrow> c' \<le> c"
    by blast
  have "snd (encodeSample st s) = c"
    using c(1) by (simp add: encodeSample_def Let_def)
  with c show ?thesis by simp
qed

theorem C4_encodeSample_best_code_witness:
  "(0 \<le> index \<lparr>sample = 0, index = 0\<rparr> \<and> index \<lparr>sample = 0, index = 0\<rparr> \<le> 88
    \<and> int32 100 \<and> int32 (sample \<lparr>sample = 0, index = 0\<rparr>)
    \<and> - 2146435071 \<le> 100 - sample \<lparr>sample = 0, index = 0\<rparr>
    \<and> 100 - sample \<lparr>sample = 0, index = 0\<rparr> \<le> 524288)
   \<and> snd (encodeSample \<lparr>sample = 0, index = 0\<rparr> 100) < 16
   \<and> thisError (stepSizeTable ! nat (index \<lparr>sample = 0, index = 0\<rparr>))
        (100 - sample \<lparr>sample = 0, index = 0\<rparr>)
        (snd (encodeSample \<lparr>sample = 0, index = 0\<rparr> 100))
      \<le> thisError (stepSizeTable ! nat (index \<lparr>sample = 0, index = 0\<rparr>))
           (100 - sample \<lparr>sample = 0, index = 0\<rparr>) 3"
  using C4_encodeSample_best_code [of "\<lparr>sample = 0, index = 0\<rparr>" 100]
  by (simp add: int32_def)

text \<open>
  C7. Both clamps are applied by every call of \<^verbatim>\<open>encodeSample\<close>, whatever the state
  before it; so every state reached while a stream is encoded has its sample in
  \<open>[-32768, 32767]\<close> and its index in \<open>[0, 88]\<close>. The initial conditions chosen by
  \<^verbatim>\<open>optimizeIC\<close> have their index in \<open>[0, 88]\<close> as well, so every read of the step
  table during the stream is inside the table. The last state of the list is the state
  at which \<^verbatim>\<open>encodeWithIC\<close> ends.
\<close>

theorem C7_state_stays_in_range:
  "inRange (fst (encodeSample state s))
   \<and> indexOk (optimizeIC state0 inp)
   \<and> (\<forall>st \<in> set (statesAfter (optimizeIC state0 inp) (fedSamples inp (length inp mod 2 ^ 32))).
         inRange st)
   \<and> fst (encodeWithIC_run (optimizeIC state0 inp) inp out (length inp mod 2 ^ 32)) =
       last (optimizeIC state0 inp
             # statesAfter (optimizeIC state0 inp) (fedSamples inp (length inp mod 2 ^ 32)))"
  using statesAfter_inRange
  by (simp only: encodeSample_inRange optimizeIC_index encodeWithIC_run_state statesAfter_last) blast

theorem C7_state_stays_in_range_witness:
  "\<lparr>sample = 13, index = 8\<rparr>
     \<in> set (statesAfter (optimizeIC \<lparr>sample = 7, index = 7\<rparr> [0x12, 0x34])
              (fedSamples [0x12, 0x34] (length [0x12, 0x34 :: u8] mod 2 ^ 32)))
   \<and> inRange \<lparr>sample = 13, index = 8\<rparr>"
proof -
  have opt: "optimizeIC \<lparr>sample = 7, index = 7\<rparr> [0x12, 0x34] = \<lparr>sample = 0, index = 0\<rparr>"
    by (simp add: optimizeIC_def)
  have fed: "fedSamples [0x12, 0x34] (length [0x12, 0x34 :: u8] mod 2 ^ 32) = [13330, 13330]"
    by (simp add: fedSamples_def readSample_def)
  have tr: "statesAfter \<lparr>sample = 0, index = 0\<rparr> [13330, 13330]
              = [\<lparr>sample = 13, index = 8\<rparr>, \<lparr>sample = 43, index = 16\<rparr>]"
    by code_simp
  show ?thesis
    using C7_state_stays_in_range [of "\<lparr>sample = 0, index = 0\<rparr>" 0 "\<lparr>sample = 7, index = 7\<rparr>" "[0x12, 0x34]" "[]"]
    unfolding opt fed tr by simp
qed

text \<open>
  C8. An input of fewer than 4 bytes is encoded from the initial conditions (0, 0)
  without any search: the output is the header 0, 0, 0, followed by one byte exactly
  when the input holds a complete sample, and that byte is the pair made of the lone
  sample encoded twice. The previous contents of the output vector are dropped.
\<close>

theorem C8_short_input:
  assumes "length inp < 4"
  shows "ADPCMEncoder_encode state0 inp out =
           (if 2 \<le> length inp
            then fst (snd (encodePair \<lparr>sample = 0, index = 0\<rparr> (readSample inp 0) (readSample inp 0) [0, 0, 0]))
            else [0, 0, 0])
         \<and> take 3 (ADPCMEncoder_encode state0 inp out) = [0, 0, 0]
         \<and> length (ADPCMEncoder_encode state0 inp out) = (if 2 \<le> length inp then 4 else 3)"
proof -
  have opt: "optimizeIC state0 inp = \<lparr>sample = 0, index = 0\<rparr>"
    using assms by (simp add: optimizeIC_def)
  have len: "length inp mod 2 ^ 32 = length inp"
    using assms by simp
  have enc: "ADPCMEncoder_encode state0 inp out =
      snd (snd (encodeWithIC_run \<lparr>sample = 0, index = 0\<rparr> inp out (length inp)))"
    by (simp only: ADPCMEncoder_encode_def opt len encodeWithIC_def)
  show ?thesis
  proof (cases "2 \<le> length inp")
    case False
    then have "length inp < 2" by simp
    then show ?thesis
      unfolding enc using encodeWithIC_run_empty [of "length inp" "\<lparr>sample = 0, index = 0\<rparr>" inp out] False
      by simp
  next
    case True
    with assms have "length inp = 2 \<or> length inp = 3" by linarith
    then show ?thesis
      unfolding enc using encodeWithIC_run_one [of "length inp" "\<lparr>sample = 0, index = 0\<rparr>" inp out] True
      by (simp add: encodePair_out)
  qed
qed

theorem C8_short_input_witness:
  "length [0x12, 0x34, 0x56 :: u8] < 4
   \<and> ADPCMEncoder_encode \<lparr>sample = 7, index = 7\<rparr> [0x12, 0x34, 0x56] [1, 2] = [0, 0, 0, 119]"
proof -
  have e: "fst (snd (encodePair \<lparr>sample = 0, index = 0\<rparr> (readSample [0x12, 0x34, 0x56] 0)
              (readSample [0x12, 0x34, 0x56] 0) [0, 0, 0])) = [0, 0, 0, 119]"
    by code_simp
  show ?thesis
    using C8_short_input [of "[0x12, 0x34, 0x56]" "\<lparr>sample = 7, index = 7\<rparr>" "[1, 2]"]
    by (simp add: e)
qed

section \<open>DUB: auxiliary facts\<close>

lemma bits_append_1: "bits_append v 1 bs = bs @ [bit v 0]"
  by (simp add: bits_append_def)

lemma bits_append_Suc0: "bits_append v (Suc 0) bs = bs @ [bit v 0]"
  by (simp add: bits_append_def)

lemma bits_append_3: "bits_append v 3 bs = bs @ [bit v 2, bit v 1, bit v 0]"
  by (simp add: bits_append_def eval_nat_numeral)

lemma appendVar_step:
  "appendVar v 3 bs =
     (if v div 8 = 0 then Some (bs @ [False, bit v 2, bit v 1, bit v 0])
      else appendVar (v div 8) 3 (bs @ [True, bit v 2, bit v 1, bit v 0]))"
proof -
  have tb: "bit (take_bit 3 v) 2 = bit v 2" "bit (take_bit 3 v) 1 = bit v 1" "bit (take_bit 3 v) 0 = bit v 0"
    by (simp_all add: bit_take_bit_iff)
  have d: "drop_bit 3 v = v div 8"
    by (simp add: drop_bit_eq_div)
  have "appendVar v 3 bs =
     (let rest = v div 8;
          bits' = bits_append (take_bit 3 v) 3 (bits_append (if rest \<noteq> 0 then 1 else 0) 1 bs)
      in if rest = 0 then Some bits' else appendVar rest 3 bits')"
    by (subst appendVar.simps) (simp only: d Let_def, simp)
  also have "\<dots> = (if v div 8 = 0 then Some (bs @ [False, bit v 2, bit v 1, bit v 0])
      else appendVar (v div 8) 3 (bs @ [True, bit v 2, bit v 1, bit v 0]))"
    unfolding Let_def bits_append_3 bits_append_1 tb by (simp add: bit_Suc_0_iff)
  finally show ?thesis .
qed

lemma appendVar_varBits: "appendVar v 3 bs = Some (bs @ varBits v)"
proof (induction v arbitrary: bs rule: varBits.induct)
  case (1 v)
  show ?case
  proof (cases "v div 8 = 0")
    case True
    then show ?thesis
      by (subst appendVar_step, subst varBits.simps) simp
  next
    case False
    then show ?thesis
      using "1.IH" [OF False]
      by (subst appendVar_step, subst varBits.simps) simp
  qed
qed

lemma length_varBits_ge: "4 \<le> length (varBits v)"
  by (subst varBits.simps) simp

lemma packCode_codeBits:
  "code_type code \<noteq> INVALID \<Longrightarrow> packCode code bs = Some (bs @ codeBits code)"
  by (cases "code_type code")
    (auto simp: packCode_def codeBits_def packCode_chunk_def appendVar_varBits bits_append_Suc0 Let_def
       bit_Suc_0_iff)

lemma packCode_INVALID: "code_type code = INVALID \<Longrightarrow> packCode code bs = None"
  by (simp add: packCode_def)

lemma codeLen_codeBits:
  "code_type code \<noteq> INVALID \<Longrightarrow> codeLen code = Some (length (codeBits code))"
  by (simp add: codeLen_def packCode_codeBits)

lemma length_codeBits_ge:
  "code_type code = DELTA \<or> code_type code = REF \<Longrightarrow> 5 \<le> length (codeBits code)"
  using length_varBits_ge [of "nat \<bar>code_value code\<bar>"] length_varBits_ge [of "nat (code_value code)"]
  by (auto simp: codeBits_def)

lemma findRef_type:
  "findRef dct tile i code bestLength = Some c \<Longrightarrow> c = code \<or> code_type c = REF"
proof (induction dct tile i code bestLength rule: findRef.induct)
  case (1 dct tile i code bestLength)
  let ?ref = "\<lparr>code_type = REF, code_value = int i\<rparr>"
  have len: "codeLen ?ref = Some (length (codeBits ?ref))"
    by (intro codeLen_codeBits) simp
  show ?case
  proof (cases "i < length dct")
    case False
    with "1.prems" show ?thesis by (subst (asm) findRef.simps) simp
  next
    case inb: True
    show ?thesis
    proof (cases "tile = dct ! (length dct - 1 - i)")
      case False
      with inb "1.prems" have "findRef dct tile (i + 1) code bestLength = Some c"
        by (subst (asm) findRef.simps) simp
      with "1.IH"(2) [OF inb False] show ?thesis by simp
    next
      case match: True
      show ?thesis
      proof (cases "length (codeBits ?ref) \<le> bestLength")
        case True
        with inb match len "1.prems" have "c = ?ref"
          by (subst (asm) findRef.simps) simp
        then show ?thesis by simp
      next
        case False
        with inb match len "1.prems" have "findRef dct tile (i + 1) code bestLength = Some c"
          by (subst (asm) findRef.simps) simp
        with "1.IH"(1) [OF inb match len False] show ?thesis by simp
      qed
    qed
  qed
qed

lemma findRef_total: "\<exists>c. findRef dct tile i code bestLength = Some c"
proof (induction dct tile i code bestLength rule: findRef.induct)
  case (1 dct tile i code bestLength)
  let ?ref = "\<lparr>code_type = REF, code_value = int i\<rparr>"
  have len: "codeLen ?ref = Some (length (codeBits ?ref))"
    by (intro codeLen_codeBits) simp
  show ?case
  proof (cases "i < length dct")
    case False
    then show ?thesis by (subst findRef.simps) simp
  next
    case inb: True
    show ?thesis
    proof (cases "tile = dct ! (length dct - 1 - i)")
      case False
      with "1.IH"(2) [OF inb False] inb show ?thesis
        by (subst findRef.simps) simp
    next
      case match: True
      show ?thesis
      proof (cases "length (codeBits ?ref) \<le> bestLength")
        case True
        with inb match len show ?thesis
          by (subst findRef.simps) simp
      next
        case False
        with "1.IH"(1) [OF inb match len False] inb match len show ?thesis
          by (subst findRef.simps) simp
      qed
    qed
  qed
qed

lemma findBestCode_total:
  "\<exists>c. findBestCode dct tile = Some c \<and> (code_type c = DELTA \<or> code_type c = REF)"
proof -
  let ?code = "if dct = [] then \<lparr>code_type = DELTA, code_value = uint tile\<rparr>
               else \<lparr>code_type = DELTA, code_value = uint tile - uint (last dct)\<rparr>"
  have ty: "code_type ?code = DELTA" by simp
  then have len: "codeLen ?code = Some (length (codeBits ?code))"
    by (intro codeLen_codeBits) simp
  obtain c where c: "findRef dct tile 0 ?code (length (codeBits ?code)) = Some c"
    using findRef_total by blast
  from findRef_type [OF c] ty have "code_type c = DELTA \<or> code_type c = REF" by auto
  moreover have "findBestCode dct tile = Some c"
    unfolding findBestCode_def Let_def len using c by simp
  ultimately show ?thesis by blast
qed

lemma flushWords_total:
  "flushWords bs buf = (bs', buf') \<Longrightarrow>
     16 * length buf' + length bs' = 16 * length buf + length bs \<and> length bs' < 16
     \<and> length buf \<le> length buf'"
proof (induction bs buf rule: flushWords.induct)
  case (1 bs buf)
  show ?case
  proof (cases "16 \<le> length bs")
    case True
    with "1.prems" have "flushWords (drop 16 bs) (buf @ [wordOfBits (take 16 bs)]) = (bs', buf')"
      by (subst (asm) flushWords.simps) simp
    from "1.IH" [OF True this] True show ?thesis by simp
  next
    case False
    with "1.prems" show ?thesis
      by (subst (asm) flushWords.simps) simp
  qed
qed

lemma flush_nonfinal:
  "flush bs buf False = (bs', buf') \<Longrightarrow>
     16 * length buf' + length bs' = 16 * length buf + length bs \<and> length bs' < 16"
  by (auto simp: flush_def split: prod.splits dest: flushWords_total)

lemma emitCode_total:
  assumes "code_type code \<noteq> INVALID"
  shows "\<exists>st'. emitCode code st = Some st'
           \<and> totalBits st' = totalBits st + length (codeBits code)
           \<and> dict st' = dict st \<and> prevCode st' = prevCode st
           \<and> repeatCount st' = repeatCount st \<and> repeating st' = repeating st"
proof -
  obtain b d where f: "flush (bits st @ codeBits code) (data st) False = (b, d)"
    by (metis surj_pair)
  from flush_nonfinal [OF f] show ?thesis
    using assms f by (simp add: emitCode_def packCode_codeBits totalBits_def)
qed

lemma encodeBlock_tile_cases:
  assumes fb: "findBestCode (dict st) tile = Some code"
  shows "encodeBlock_tile tile st =
     (let sameCode = (code_type code = code_type (prevCode st) \<and> code_value code = code_value (prevCode st));
          st2 = st\<lparr>dict := dict st @ [tile], prevCode := code\<rparr>
      in if repeating st
         then (if sameCode then Some (st2\<lparr>repeatCount := repeatCount st + 1\<rparr>)
               else (case emitCode \<lparr>code_type = REPEAT, code_value = int (repeatCount st)\<rparr> st2 of
                       None \<Rightarrow> None
                     | Some st3 \<Rightarrow> emitCode code (st3\<lparr>repeating := False\<rparr>)))
         else if sameCode then emitCode code (st2\<lparr>repeating := True, repeatCount := 0\<rparr>)
         else emitCode code st2)"
  by (simp add: encodeBlock_tile_def fb Let_def)

lemma totalBits_update [simp]:
  "totalBits (st\<lparr>dict := d\<rparr>) = totalBits st"
  "totalBits (st\<lparr>prevCode := c\<rparr>) = totalBits st"
  "totalBits (st\<lparr>repeatCount := n\<rparr>) = totalBits st"
  "totalBits (st\<lparr>repeating := b\<rparr>) = totalBits st"
  by (simp_all add: totalBits_def)

lemma encodeBlock_tile_total:
  "\<exists>st'. encodeBlock_tile tile st = Some st' \<and> totalBits st \<le> totalBits st'
         \<and> (\<not> repeating st \<longrightarrow> totalBits st < totalBits st')"
proof -
  obtain code where fb: "findBestCode (dict st) tile = Some code"
    and ty: "code_type code = DELTA \<or> code_type code = REF"
    using findBestCode_total by blast
  from ty have valid: "code_type code \<noteq> INVALID" by auto
  from ty have "5 \<le> length (codeBits code)" by (rule length_codeBits_ge)
  then have pos: "codeBits code \<noteq> []" by auto
  let ?st2 = "st\<lparr>dict := dict st @ [tile], prevCode := code\<rparr>"
  let ?same = "code_type code = code_type (prevCode st) \<and> code_value code = code_value (prevCode st)"
  show ?thesis
  proof (cases "repeating st")
    case rep: True
    show ?thesis
    proof (cases ?same)
      case True
      with rep show ?thesis
        by (simp add: encodeBlock_tile_cases [OF fb] Let_def)
    next
      case False
      obtain st3 where st3: "emitCode \<lparr>code_type = REPEAT, code_value = int (repeatCount st)\<rparr> ?st2 = Some st3"
        "totalBits st3 = totalBits ?st2 + length (codeBits \<lparr>code_type = REPEAT, code_value = int (repeatCount st)\<rparr>)"
        using emitCode_total [of "\<lparr>code_type = REPEAT, code_value = int (repeatCount st)\<rparr>" ?st2] by auto
      obtain st4 where st4: "emitCode code (st3\<lparr>repeating := False\<rparr>) = Some st4"
        "totalBits st4 = totalBits (st3\<lparr>repeating := False\<rparr>) + length (codeBits code)"
        using emitCode_total [OF valid, of "st3\<lparr>repeating := False\<rparr>"] by auto
      from rep False st3 st4 show ?thesis
        by (auto simp: encodeBlock_tile_cases [OF fb] Let_def)
    qed
  next
    case norep: False
    show ?thesis
    proof (cases ?same)
      case True
      obtain st4 where st4: "emitCode code (?st2\<lparr>repeating := True, repeatCount := 0\<rparr>) = Some st4"
        "totalBits st4 = totalBits (?st2\<lparr>repeating := True, repeatCount := 0\<rparr>) + length (codeBits code)"
        using emitCode_total [OF valid, of "?st2\<lparr>repeating := True, repeatCount := 0\<rparr>"] by auto
      from norep True st4 pos show ?thesis
        by (simp add: encodeBlock_tile_cases [OF fb] Let_def)
    next
      case False
      obtain st4 where st4: "emitCode code ?st2 = Some st4"
        "totalBits st4 = totalBits ?st2 + length (codeBits code)"
        using emitCode_total [OF valid, of ?st2] by auto
      from norep False st4 pos show ?thesis
        by (auto simp: encodeBlock_tile_cases [OF fb] Let_def)
    qed
  qed
qed

lemma encodeBlock_loop_total:
  "\<exists>st'. encodeBlock_loop ts st = Some st' \<and> totalBits st \<le> totalBits st'
         \<and> (ts \<noteq> [] \<and> \<not> repeating st \<longrightarrow> 0 < totalBits st')"
proof (induction ts arbitrary: st)
  case Nil
  then show ?case by simp
next
  case (Cons t ts)
  obtain st1 where st1: "encodeBlock_tile t st = Some st1" "totalBits st \<le> totalBits st1"
    "\<not> repeating st \<longrightarrow> totalBits st < totalBits st1"
    using encodeBlock_tile_total by blast
  obtain st2 where st2: "encodeBlock_loop ts st1 = Some st2" "totalBits st1 \<le> totalBits st2"
    using Cons.IH by blast
  from st1 st2 show ?case by auto
qed

lemma flush_final_nonempty:
  assumes "flush bs buf True = (bs', buf')" and "0 < 16 * length buf + length bs"
  shows "buf' \<noteq> []"
proof -
  obtain b1 d1 where fw: "flushWords bs buf = (b1, d1)" by (metis surj_pair)
  from flushWords_total [OF fw] assms(2) have "b1 \<noteq> [] \<or> d1 \<noteq> []" by auto
  with assms(1) fw show ?thesis
    by (auto simp: flush_def split: if_splits)
qed

lemma length_blockTiles: "length (blockTiles tiles base w h mW) = w * h"
  by (induction h) (simp_all add: blockTiles_def)

lemma encodeBlock_nonempty:
  assumes "0 < w" "0 < h"
  shows "\<exists>p. encodeBlock tiles base w h mW [] = Some p \<and> p \<noteq> []"
proof -
  let ?ts = "blockTiles tiles base w h mW"
  have ne: "?ts \<noteq> []"
    using assms length_blockTiles [of tiles base w h mW] by auto
  obtain st where st: "encodeBlock_loop ?ts (initialBlockState []) = Some st" "0 < totalBits st"
    using encodeBlock_loop_total [of ?ts "initialBlockState []"] ne
    by (auto simp: initialBlockState_def)
  let ?rep = "\<lparr>code_type = REPEAT, code_value = int (repeatCount st)\<rparr>"
  define bits1 where "bits1 = (if repeating st then bits st @ codeBits ?rep else bits st)"
  have pc: "(if repeating st then packCode ?rep (bits st) else Some (bits st)) = Some bits1"
    by (simp add: bits1_def packCode_codeBits)
  have tot: "0 < 16 * length (data st) + length bits1"
    using st(2) by (auto simp: bits1_def totalBits_def)
  obtain b d where f: "flush bits1 (data st) True = (b, d)" by (metis surj_pair)
  from flush_final_nonempty [OF f tot] have "d \<noteq> []" .
  moreover have "encodeBlock tiles base w h mW [] = Some d"
    unfolding encodeBlock_def st(1) using pc f by simp
  ultimately show ?thesis by blast
qed

lemma firstOccurrences_Nil [simp]: "firstOccurrences [] = []"
  by (simp add: firstOccurrences_def)

lemma firstOccurrences_snoc:
  "firstOccurrences (xs @ [x]) =
     (if x \<in> set (firstOccurrences xs) then firstOccurrences xs else firstOccurrences xs @ [x])"
  by (simp add: firstOccurrences_def)

lemma set_firstOccurrences [simp]: "set (firstOccurrences xs) = set xs"
  by (induction xs rule: rev_induct) (auto simp: firstOccurrences_snoc)

lemma distinct_firstOccurrences [simp]: "distinct (firstOccurrences xs)"
  by (induction xs rule: rev_induct) (auto simp: firstOccurrences_snoc)

lemma offsetOf_append_mem: "p \<in> set us \<Longrightarrow> offsetOf (us @ vs) p = offsetOf us p"
  by (simp add: offsetOf_def takeWhile_append1)

lemma offsetOf_snoc_new: "p \<notin> set us \<Longrightarrow> offsetOf (us @ [p]) p = length (concat us)"
proof -
  assume "p \<notin> set us"
  then have "takeWhile (\<lambda>q. q \<noteq> p) (us @ [p]) = us"
    by (induction us) auto
  then show ?thesis by (simp add: offsetOf_def)
qed

lemma blockPayload_dims:
  "mWidth e = mWidth enc \<Longrightarrow> mHeight e = mHeight enc \<Longrightarrow>
     blockPayload e tiles p = blockPayload enc tiles p"
  by (simp add: blockPayload_def split: prod.splits)

lemma storeBlock_dims:
  "mWidth (fst (storeBlock b em)) = mWidth (fst em) \<and> mHeight (fst (storeBlock b em)) = mHeight (fst em)
   \<and> mFrames (fst (storeBlock b em)) = mFrames (fst em) \<and> mIndex16 (fst (storeBlock b em)) = mIndex16 (fst em)"
  by (cases em) (simp add: storeBlock_def Let_def split: option.splits)

lemma fold_storeBlock_dims:
  "mWidth (fst (fold storeBlock bs em)) = mWidth (fst em) \<and> mHeight (fst (fold storeBlock bs em)) = mHeight (fst em)
   \<and> mFrames (fst (fold storeBlock bs em)) = mFrames (fst em) \<and> mIndex16 (fst (fold storeBlock bs em)) = mIndex16 (fst em)"
  by (induction bs arbitrary: em) (simp_all add: storeBlock_dims)

lemma blockPayload_total: "\<exists>d. blockPayload enc tiles p = Some d"
proof -
  obtain f y x where p: "p = (f, y, x)" by (cases p) auto
  let ?w = "min BLOCK_SIZE (mWidth enc - x)" and ?h = "min BLOCK_SIZE (mHeight enc - y)"
  let ?base = "x + y * mWidth enc + f * mWidth enc * mHeight enc"
  let ?ts = "blockTiles tiles ?base ?w ?h (mWidth enc)"
  obtain st where st: "encodeBlock_loop ?ts (initialBlockState []) = Some st"
    using encodeBlock_loop_total by blast
  let ?rep = "\<lparr>code_type = REPEAT, code_value = int (repeatCount st)\<rparr>"
  have "\<exists>b. (if repeating st then packCode ?rep (bits st) else Some (bits st)) = Some b"
    by (simp add: packCode_codeBits)
  then show ?thesis
    unfolding p blockPayload_def encodeBlock_def using st by (auto simp: Let_def)
qed

lemma encodeTiles_loop_fold:
  assumes "mWidth (fst em) = mWidth enc" "mHeight (fst em) = mHeight enc"
  shows "encodeTiles_loop tiles ps em =
           Some (fold storeBlock (map (\<lambda>p. the (blockPayload enc tiles p)) ps) em)"
  using assms
proof (induction ps arbitrary: em)
  case Nil
  then show ?case by simp
next
  case (Cons p ps)
  obtain d where d: "blockPayload enc tiles p = Some d"
    using blockPayload_total by blast
  have d': "blockPayload (fst em) tiles p = Some d"
    using blockPayload_dims [OF Cons.prems] d by simp
  have "encodeTiles_loop tiles ps (storeBlock d em) =
          Some (fold storeBlock (map (\<lambda>p. the (blockPayload enc tiles p)) ps) (storeBlock d em))"
    using Cons.prems by (intro Cons.IH) (simp_all add: storeBlock_dims)
  then show ?case
    using d d' by simp
qed

text \<open>The state of the deduplication after the payloads \<open>ps\<close>, from a fresh encoder.\<close>

lemma fold_storeBlock_fresh:
  assumes "blockResult enc0 = []" "indexResult enc0 = []"
  shows "fold storeBlock ps (enc0, Map.empty) =
     (enc0\<lparr>indexResult := map (\<lambda>p. word_of_nat (offsetOf (firstOccurrences ps) p)) ps,
           blockResult := concat (firstOccurrences ps)\<rparr>,
      (\<lambda>p. if p \<in> set ps then Some (word_of_nat (offsetOf (firstOccurrences ps) p)) else None))"
proof (induction ps rule: rev_induct)
  case Nil
  show ?case using assms by (simp add: fun_eq_iff)
next
  case (snoc q ps)
  let ?U = "firstOccurrences ps"
  have old: "\<And>p. p \<in> set ps \<Longrightarrow> offsetOf (firstOccurrences (ps @ [q])) p = offsetOf ?U p"
    by (simp add: firstOccurrences_snoc offsetOf_append_mem)
  have map_old: "map (\<lambda>p. word_of_nat (offsetOf (firstOccurrences (ps @ [q])) p) :: u16) ps
               = map (\<lambda>p. word_of_nat (offsetOf ?U p)) ps"
    using old by simp
  have step: "fold storeBlock (ps @ [q]) (enc0, Map.empty) =
      storeBlock q (enc0\<lparr>indexResult := map (\<lambda>p. word_of_nat (offsetOf ?U p)) ps,
                          blockResult := concat ?U\<rparr>,
                    (\<lambda>p. if p \<in> set ps then Some (word_of_nat (offsetOf ?U p)) else None))"
    by (simp only: fold_append comp_apply snoc.IH fold.simps id_apply)
  show ?case
  proof (cases "q \<in> set ps")
    case True
    then have U: "firstOccurrences (ps @ [q]) = ?U"
      by (simp add: firstOccurrences_snoc)
    show ?thesis
      unfolding step U using True by (simp add: storeBlock_def fun_eq_iff)
  next
    case False
    then have U: "firstOccurrences (ps @ [q]) = ?U @ [q]"
      by (simp add: firstOccurrences_snoc)
    have new: "offsetOf (?U @ [q]) q = length (concat ?U)"
      using False by (intro offsetOf_snoc_new) simp
    have old': "\<And>p. p \<in> set ps \<Longrightarrow> offsetOf (?U @ [q]) p = offsetOf ?U p"
      by (simp add: offsetOf_append_mem)
    have map_old': "map (\<lambda>p. word_of_nat (offsetOf (?U @ [q]) p) :: u16) ps
               = map (\<lambda>p. word_of_nat (offsetOf ?U p)) ps"
      using old' by simp
    show ?thesis
      unfolding step U using False
      by (simp add: storeBlock_def Let_def new map_old' old' fun_eq_iff)
  qed
qed

lemma DUBEncoder_new_simps [simp]:
  "mWidth (DUBEncoder_new w h f) = w" "mHeight (DUBEncoder_new w h f) = h"
  "mFrames (DUBEncoder_new w h f) = f" "blockResult (DUBEncoder_new w h f) = []"
  "indexResult (DUBEncoder_new w h f) = []" "mIndex16 (DUBEncoder_new w h f) = False"
  by (simp_all add: DUBEncoder_new_def)

lemma dedupResult_simps [simp]:
  "indexResult (dedupResult enc0 ps) = map (\<lambda>p. word_of_nat (offsetOf (firstOccurrences ps) p)) ps"
  "blockResult (dedupResult enc0 ps) = concat (firstOccurrences ps)"
  "mIndex16 (dedupResult enc0 ps) = mIndex16 enc0"
  "mWidth (dedupResult enc0 ps) = mWidth enc0"
  "mHeight (dedupResult enc0 ps) = mHeight enc0"
  "mFrames (dedupResult enc0 ps) = mFrames enc0"
  by (simp_all add: dedupResult_def)

lemma probeIndex_fields [simp]:
  "indexResult (probeIndex enc is) = indexResult enc"
  "blockResult (probeIndex enc is) = blockResult enc"
  "mWidth (probeIndex enc is) = mWidth enc"
  "mHeight (probeIndex enc is) = mHeight enc"
  "mFrames (probeIndex enc is) = mFrames enc"
  by (induction "is") simp_all

lemma probeIndex_mIndex16:
  "mIndex16 (probeIndex enc is) \<longleftrightarrow> mIndex16 enc \<or> (\<exists>i \<in> set is. 0x100 \<le> packIndex enc i)"
  by (induction "is") auto

lemma probeIndex_eq:
  "probeIndex enc is = enc\<lparr>mIndex16 := mIndex16 enc \<or> (\<exists>i \<in> set is. 0x100 \<le> packIndex enc i)\<rparr>"
  by (induction "is") auto

lemma encodeTiles_fresh:
  "encodeTiles (DUBEncoder_new w h f) tiles =
     Some (probeIndex (dedupResult (DUBEncoder_new w h f) (payloads (DUBEncoder_new w h f) tiles))
             [0..<length (blockPositions (DUBEncoder_new w h f))])"
proof -
  let ?X = "DUBEncoder_new w h f"
  have loop: "encodeTiles_loop tiles (blockPositions ?X) (?X, Map.empty) =
      Some (fold storeBlock (payloads ?X tiles) (?X, Map.empty))"
    unfolding payloads_def by (rule encodeTiles_loop_fold) simp_all
  have fresh: "fold storeBlock (payloads ?X tiles) (?X, Map.empty) =
      (dedupResult ?X (payloads ?X tiles),
       (\<lambda>p. if p \<in> set (payloads ?X tiles)
            then Some (word_of_nat (offsetOf (firstOccurrences (payloads ?X tiles)) p)) else None))"
    unfolding dedupResult_def by (rule fold_storeBlock_fresh) simp_all
  have upd: "(dedupResult ?X (payloads ?X tiles))\<lparr>mIndex16 := False\<rparr> = dedupResult ?X (payloads ?X tiles)"
    by (simp add: dedupResult_def DUBEncoder_new_def)
  show ?thesis
    unfolding encodeTiles_def loop fresh
    by (simp add: upd Let_def) (simp add: payloads_def)
qed

lemma unsigned_id: "0 \<le> k \<Longrightarrow> k < 2 ^ 32 \<Longrightarrow> unsigned k = k"
  by (simp add: unsigned_def)

lemma uint_u16_bounds: "0 \<le> uint (x :: u16) \<and> uint x < 65536"
  using uint_lt2p [of x] by simp

lemma getIndexSize_8:
  "\<not> mIndex16 enc \<Longrightarrow> length (indexResult enc) < 2 ^ 31 \<Longrightarrow>
     getIndexSize enc = (int (length (indexResult enc)) + 1) div 2"
  by (simp add: getIndexSize_def unsigned_id Let_def)

lemma getIndexSize_16:
  "mIndex16 enc \<Longrightarrow> length (indexResult enc) < 2 ^ 31 \<Longrightarrow>
     getIndexSize enc = int (length (indexResult enc))"
  by (simp add: getIndexSize_def unsigned_id Let_def)

lemma nextWord_8:
  "\<not> mIndex16 enc \<Longrightarrow> i < 2 ^ 31 \<Longrightarrow> nextWord enc i = (int i + 2) div 2"
  by (simp add: nextWord_def unsigned_id)

lemma nextWord_16:
  "mIndex16 enc \<Longrightarrow> i < 2 ^ 31 \<Longrightarrow> nextWord enc i = int i + 1"
  by (simp add: nextWord_def unsigned_id)

lemma unsigned_id_num: "0 \<le> k \<Longrightarrow> k < 4294967296 \<Longrightarrow> unsigned k = k"
  by (simp add: unsigned_def)

lemma packIndex_8:
  assumes "\<not> mIndex16 enc" "length (indexResult enc) < 2 ^ 31" "i < length (indexResult enc)"
  shows "packIndex enc i = (int (length (indexResult enc)) + 1) div 2 + uint (indexResult enc ! i) - (int i + 2) div 2"
    and "(int i + 2) div 2 \<le> (int (length (indexResult enc)) + 1) div 2"
proof -
  let ?n = "int (length (indexResult enc))"
  let ?s = "uint (indexResult enc ! i)"
  have i: "i < 2 ^ 31" using assms by simp
  show le: "(int i + 2) div 2 \<le> (?n + 1) div 2"
    using assms(3) by (intro zdiv_mono1) simp_all
  have s: "0 \<le> ?s" "?s < 65536" using uint_u16_bounds by auto
  have n: "0 \<le> (?n + 1) div 2" "(?n + 1) div 2 \<le> 2147483648" using assms(2) by simp_all
  have nw: "0 \<le> (int i + 2) div 2" by simp
  have "unsigned ((?n + 1) div 2 + ?s) = (?n + 1) div 2 + ?s"
    using s n by (intro unsigned_id_num) linarith+
  moreover have "unsigned ((?n + 1) div 2 + ?s - (int i + 2) div 2) = (?n + 1) div 2 + ?s - (int i + 2) div 2"
    using s n nw le by (intro unsigned_id_num) linarith+
  ultimately show "packIndex enc i = (?n + 1) div 2 + ?s - (int i + 2) div 2"
    using assms i by (simp add: packIndex_def getIndexSize_8 nextWord_8)
qed

lemma packIndex_16:
  assumes "mIndex16 enc" "length (indexResult enc) < 2 ^ 31" "i < length (indexResult enc)"
  shows "packIndex enc i = int (length (indexResult enc)) + uint (indexResult enc ! i) - (int i + 1)"
proof -
  let ?n = "int (length (indexResult enc))"
  let ?s = "uint (indexResult enc ! i)"
  have i: "i < 2 ^ 31" "int i + 1 \<le> ?n" using assms by simp_all
  have s: "0 \<le> ?s" "?s < 65536" using uint_u16_bounds by auto
  have n: "0 \<le> ?n" "?n < 2147483648" using assms(2) by simp_all
  have "unsigned (?n + ?s) = ?n + ?s"
    using s n by (intro unsigned_id_num) linarith+
  moreover have "unsigned (?n + ?s - (int i + 1)) = ?n + ?s - (int i + 1)"
    using s n i(2) by (intro unsigned_id_num) linarith+
  ultimately show ?thesis
    using assms i by (simp add: packIndex_def getIndexSize_16 nextWord_16)
qed

lemma offsetOf_le: "offsetOf us p \<le> length (concat us)"
proof -
  have "concat us = concat (takeWhile (\<lambda>q. q \<noteq> p) us) @ concat (dropWhile (\<lambda>q. q \<noteq> p) us)"
    by (metis concat_append takeWhile_dropWhile_id)
  then have "length (concat us) = offsetOf us p + length (concat (dropWhile (\<lambda>q. q \<noteq> p) us))"
    by (simp add: offsetOf_def)
  then show ?thesis by simp
qed

lemma offsetOf_Cons: "offsetOf (u # us) p = (if u = p then 0 else length u + offsetOf us p)"
  by (simp add: offsetOf_def)

lemma offsetOf_payload:
  "p \<in> set us \<Longrightarrow> take (length p) (drop (offsetOf us p) (concat us)) = p"
  by (induction us) (auto simp: offsetOf_Cons)

lemma offsetOf_inj:
  assumes "distinct us" "[] \<notin> set us" "p \<in> set us" "q \<in> set us" "offsetOf us p = offsetOf us q"
  shows "p = q"
  using assms
proof (induction us)
  case Nil
  then show ?case by simp
next
  case (Cons u us)
  show ?case
  proof (cases "u = p")
    case True
    show ?thesis
    proof (cases "u = q")
      case True
      with \<open>u = p\<close> show ?thesis by simp
    next
      case False
      with True Cons.prems have "0 = length u + offsetOf us q"
        by (simp add: offsetOf_Cons)
      with Cons.prems(2) show ?thesis by simp
    qed
  next
    case False
    show ?thesis
    proof (cases "u = q")
      case True
      with False Cons.prems have "length u + offsetOf us p = 0"
        by (simp add: offsetOf_Cons)
      with Cons.prems(2) show ?thesis by simp
    next
      case uq: False
      with False Cons.prems have "offsetOf us p = offsetOf us q" "p \<in> set us" "q \<in> set us"
        by (simp_all add: offsetOf_Cons)
      with Cons.IH Cons.prems show ?thesis by simp
    qed
  qed
qed

lemma uint_word_of_nat_u16_mod: "uint (word_of_nat k :: u16) = int (k mod 65536)"
  by (simp add: uint_nat unat_of_nat)

lemma uint_word_of_nat_u16_le: "uint (word_of_nat k :: u16) \<le> int k"
  by (simp add: uint_word_of_nat_u16_mod del: of_nat_mod)

lemma uint_word_of_nat_u16: "k < 65536 \<Longrightarrow> uint (word_of_nat k :: u16) = int k"
  by (simp add: uint_word_of_nat_u16_mod del: of_nat_mod)

lemma blockStarts_less: "x \<in> set (blockStarts n) \<Longrightarrow> x < n"
  by (auto simp: blockStarts_def BLOCK_SIZE_def)

lemma blockPositions_valid:
  "(f, y, x) \<in> set (blockPositions enc) \<Longrightarrow> x < mWidth enc \<and> y < mHeight enc"
  by (auto simp: blockPositions_def dest: blockStarts_less)

lemma blockPayload_nonempty:
  assumes "p \<in> set (blockPositions enc)"
  shows "\<exists>d. blockPayload enc tiles p = Some d \<and> d \<noteq> []"
proof -
  obtain f y x where p: "p = (f, y, x)" by (cases p) auto
  with assms blockPositions_valid have "x < mWidth enc" "y < mHeight enc" by blast+
  then have "0 < min BLOCK_SIZE (mWidth enc - x)" "0 < min BLOCK_SIZE (mHeight enc - y)"
    by (simp_all add: BLOCK_SIZE_def)
  from encodeBlock_nonempty [OF this] show ?thesis
    unfolding p blockPayload_def by (simp add: Let_def)
qed

lemma payloads_nth:
  "i < length (blockPositions enc) \<Longrightarrow>
     blockPayload enc tiles (blockPositions enc ! i) = Some (payloads enc tiles ! i)
     \<and> payloads enc tiles ! i \<noteq> []"
  using blockPayload_nonempty [of "blockPositions enc ! i" enc tiles]
  by (auto simp: payloads_def)

lemma payloads_nonempty: "[] \<notin> set (payloads enc tiles)"
proof
  assume "[] \<in> set (payloads enc tiles)"
  then obtain i where "i < length (payloads enc tiles)" "payloads enc tiles ! i = []"
    by (auto simp: in_set_conv_nth)
  with payloads_nth [of i enc tiles] show False
    by (simp add: payloads_def)
qed

lemma length_payloads [simp]: "length (payloads enc tiles) = length (blockPositions enc)"
  by (simp add: payloads_def)

lemma encodeTiles_result:
  assumes "encodeTiles (DUBEncoder_new w h f) tiles = Some enc"
  shows "indexResult enc = map (\<lambda>p. word_of_nat (offsetOf (firstOccurrences (payloads (DUBEncoder_new w h f) tiles)) p))
                              (payloads (DUBEncoder_new w h f) tiles)"
    and "blockResult enc = concat (firstOccurrences (payloads (DUBEncoder_new w h f) tiles))"
    and "mIndex16 enc \<longleftrightarrow> (\<exists>i < length (blockPositions (DUBEncoder_new w h f)).
            0x100 \<le> packIndex (enc\<lparr>mIndex16 := False\<rparr>) i)"
    and "enc\<lparr>mIndex16 := False\<rparr> = dedupResult (DUBEncoder_new w h f) (payloads (DUBEncoder_new w h f) tiles)"
proof -
  let ?X = "DUBEncoder_new w h f"
  let ?D = "dedupResult ?X (payloads ?X tiles)"
  from assms have enc: "enc = probeIndex ?D [0..<length (blockPositions ?X)]"
    by (simp add: encodeTiles_fresh)
  show "indexResult enc = map (\<lambda>p. word_of_nat (offsetOf (firstOccurrences (payloads ?X tiles)) p)) (payloads ?X tiles)"
    and "blockResult enc = concat (firstOccurrences (payloads ?X tiles))"
    unfolding enc by simp_all
  show D: "enc\<lparr>mIndex16 := False\<rparr> = ?D"
    unfolding enc probeIndex_eq by (simp add: dedupResult_def DUBEncoder_new_def)
  show "mIndex16 enc \<longleftrightarrow> (\<exists>i < length (blockPositions ?X). 0x100 \<le> packIndex (enc\<lparr>mIndex16 := False\<rparr>) i)"
    unfolding D unfolding enc probeIndex_mIndex16 by auto
qed

lemma uint_word_of_int_u8: "0 \<le> k \<Longrightarrow> k < 256 \<Longrightarrow> uint (word_of_int k :: u8) = k"
  by (simp add: uint_word_of_int)

lemma uint_word_of_int_u16: "0 \<le> k \<Longrightarrow> k < 65536 \<Longrightarrow> uint (word_of_int k :: u16) = k"
  by (simp add: uint_word_of_int)

lemma packIndex_nonneg: "0 \<le> packIndex enc i"
  by (simp add: packIndex_def unsigned_def)

lemma getResult_16:
  assumes "mIndex16 enc" "length (indexResult enc) < 2 ^ 31"
  shows "getResult enc [] =
           Some (map (\<lambda>i. word_of_int (packIndex enc i)) [0..<length (indexResult enc)] @ blockResult enc)"
  using assms by (simp add: getResult_def getIndexSize_16)

lemma varBits_unfold:
  "varBits v = (v div 8 \<noteq> 0) # bit v 2 # bit v 1 # bit v 0 # (if v div 8 = 0 then [] else varBits (v div 8))"
  by (subst varBits.simps) simp

lemma low3_eq:
  assumes "bit v 2 = bit v' 2" "bit v 1 = bit v' 1" "bit v 0 = bit v' 0"
  shows "(v :: nat) mod 8 = v' mod 8"
proof -
  have "take_bit 3 v = take_bit 3 v'"
  proof (rule bit_eqI)
    fix n :: nat
    have "n < 3 \<Longrightarrow> n = 0 \<or> n = 1 \<or> n = 2" by arith
    with assms show "bit (take_bit 3 v) n = bit (take_bit 3 v') n"
      by (auto simp: bit_take_bit_iff)
  qed
  then show ?thesis by (simp add: take_bit_eq_mod)
qed

lemma varBits_prefix_inj:
  "varBits v @ r = varBits v' @ r' \<Longrightarrow> v = v'"
proof (induction v arbitrary: v' r r' rule: varBits.induct)
  case (1 v)
  from "1.prems" have heads: "(v div 8 \<noteq> 0) = (v' div 8 \<noteq> 0)"
    "bit v 2 = bit v' 2" "bit v 1 = bit v' 1" "bit v 0 = bit v' 0"
    and tails: "(if v div 8 = 0 then [] else varBits (v div 8)) @ r
              = (if v' div 8 = 0 then [] else varBits (v' div 8)) @ r'"
    by (subst (asm) varBits_unfold, subst (asm) (2) varBits_unfold, simp)+
  from heads(2-4) have m: "v mod 8 = v' mod 8" by (rule low3_eq)
  have d: "v div 8 = v' div 8"
  proof (cases "v div 8 = 0")
    case True
    with heads(1) show ?thesis by simp
  next
    case False
    with heads(1) tails have "varBits (v div 8) @ r = varBits (v' div 8) @ r'" by simp
    with "1.IH" [OF False] show ?thesis by blast
  qed
  have "v = 8 * (v div 8) + v mod 8" by simp
  also have "\<dots> = 8 * (v' div 8) + v' mod 8" by (simp only: m d)
  also have "\<dots> = v'" by simp
  finally show ?case .
qed

lemma length_varBits_upper: "v < 8 ^ Suc k \<Longrightarrow> length (varBits v) \<le> 4 * Suc k"
proof (induction k arbitrary: v)
  case 0
  then show ?case by (subst varBits_unfold) simp
next
  case (Suc k)
  from Suc.prems have "v div 8 < 8 ^ Suc k" by (simp add: less_mult_imp_div_less mult.commute)
  from Suc.IH [OF this] show ?case by (subst varBits_unfold) simp
qed

lemma length_varBits_lower: "8 ^ k \<le> v \<Longrightarrow> 4 * Suc k \<le> length (varBits v)"
proof (induction k arbitrary: v)
  case 0
  then show ?case by (subst varBits_unfold) simp
next
  case (Suc k)
  from Suc.prems have "8 ^ k \<le> v div 8"
    by (simp add: less_eq_div_iff_mult_less_eq mult.commute)
  moreover from this have "v div 8 \<noteq> 0"
    by (metis power_not_zero not_less_eq_eq le_zero_eq zero_neq_numeral)
  ultimately show ?case
    using Suc.IH [of "v div 8"] by (subst varBits_unfold) simp
qed

lemma wordOfBits_inj:
  assumes "length bs = 16" "length bs' = 16" "wordOfBits bs = wordOfBits bs'"
  shows "bs = bs'"
proof (rule nth_equalityI)
  show "length bs = length bs'" using assms by simp
next
  fix n assume n: "n < length bs"
  have "bit (wordOfBits bs) n = bit (wordOfBits bs') n" using assms(3) by simp
  then show "bs ! n = bs' ! n"
    using n assms(1,2) by (simp add: wordOfBits_def bit_horner_sum_bit_word_iff)
qed

lemma flushWords_short: "length bs < 16 \<Longrightarrow> flushWords bs buf = (bs, buf)"
  by (subst flushWords.simps) simp

lemma flush_final_after_flush:
  assumes "flush bs buf False = (b, d)"
  shows "flush b d True = flush bs buf True"
proof -
  from assms have fw: "flushWords bs buf = (b, d)"
    by (simp add: flush_def split: prod.splits)
  from flushWords_total [OF fw] have "length b < 16" by simp
  then have "flushWords b d = (b, d)" by (rule flushWords_short)
  then show ?thesis by (simp add: flush_def fw)
qed

lemma flush_two_words:
  assumes "16 < length bs" "length bs < 32"
  shows "flush bs [] True =
           ([], [wordOfBits (take 16 bs), wordOfBits (drop 16 bs @ replicate (32 - length bs) False)])"
proof -
  have "flushWords bs [] = flushWords (drop 16 bs) [wordOfBits (take 16 bs)]"
    using assms by (subst flushWords.simps) simp
  also have "\<dots> = (drop 16 bs, [wordOfBits (take 16 bs)])"
    using assms by (intro flushWords_short) simp
  finally have fw: "flushWords bs [] = (drop 16 bs, [wordOfBits (take 16 bs)])" .
  have "16 - (length bs - 16) = 32 - length bs" using assms by simp
  then show ?thesis
    using assms by (simp add: flush_def fw)
qed

lemma encodeBlock_single:
  "encodeBlock tiles base 1 1 mW [] = Some (snd (flush (tileBits (tiles ! base)) [] True))"
proof -
  let ?t = "tiles ! base"
  let ?code = "\<lparr>code_type = DELTA, code_value = uint ?t\<rparr>"
  have bt: "blockTiles tiles base 1 1 mW = [?t]"
    by (simp add: blockTiles_def)
  have cb: "codeBits ?code = tileBits ?t"
    by (simp add: codeBits_def tileBits_def)
  have cl: "codeLen ?code = Some (length (codeBits ?code))"
    by (intro codeLen_codeBits) simp
  have fr: "findRef [] ?t 0 ?code (length (codeBits ?code)) = Some ?code"
    by (subst findRef.simps) simp
  have fb: "findBestCode (dict (initialBlockState [])) ?t = Some ?code"
    by (simp add: findBestCode_def initialBlockState_def cl fr)
  obtain b d where f: "flush (tileBits ?t) [] False = (b, d)" by (metis surj_pair)
  let ?st1 = "\<lparr>bits = b, dict = [?t], prevCode = ?code, repeatCount = 0, repeating = False, data = d\<rparr>"
  have tile: "encodeBlock_tile ?t (initialBlockState []) = Some ?st1"
    unfolding encodeBlock_tile_cases [OF fb]
    by (simp add: initialBlockState_def emitCode_def packCode_codeBits cb f)
  have "encodeBlock tiles base 1 1 mW [] = Some (snd (flush b d True))"
    by (simp only: encodeBlock_def bt encodeBlock_loop.simps tile option.case) simp
  then show ?thesis
    by (simp only: flush_final_after_flush [OF f])
qed

lemma length_tileBits:
  assumes "512 \<le> unat t"
  shows "16 < length (tileBits t) \<and> length (tileBits t) < 32"
proof -
  have "unat t < 8 ^ Suc 5"
    using unsigned_less [of t, where ?'a = nat] by simp
  from length_varBits_upper [OF this] have "length (varBits (unat t)) \<le> 24" by simp
  moreover from assms have "8 ^ 3 \<le> unat t" by simp
  from length_varBits_lower [OF this] have "16 \<le> length (varBits (unat t))" by simp
  ultimately show ?thesis by (simp add: tileBits_def)
qed

lemma single_payload_length:
  "512 \<le> unat (tiles ! base) \<Longrightarrow> length (the (encodeBlock tiles base 1 1 mW [])) = 2"
  using length_tileBits [of "tiles ! base"]
  unfolding encodeBlock_single by (simp add: flush_two_words)

lemma single_payload_inj:
  assumes "512 \<le> unat (tiles ! b1)" "512 \<le> unat (tiles ! b2)"
    and "encodeBlock tiles b1 1 1 mW [] = encodeBlock tiles b2 1 1 mW []"
  shows "tiles ! b1 = tiles ! b2"
proof -
  let ?x = "tileBits (tiles ! b1)" and ?y = "tileBits (tiles ! b2)"
  note lx = length_tileBits [OF assms(1)] and ly = length_tileBits [OF assms(2)]
  from assms(3) have w: "wordOfBits (take 16 ?x) = wordOfBits (take 16 ?y)"
    "wordOfBits (drop 16 ?x @ replicate (32 - length ?x) False)
       = wordOfBits (drop 16 ?y @ replicate (32 - length ?y) False)"
    using lx ly unfolding encodeBlock_single by (simp_all add: flush_two_words)
  have t: "take 16 ?x = take 16 ?y"
    using w(1) lx ly by (intro wordOfBits_inj) simp_all
  have d: "drop 16 ?x @ replicate (32 - length ?x) False = drop 16 ?y @ replicate (32 - length ?y) False"
    using w(2) lx ly by (intro wordOfBits_inj) simp_all
  have "?x @ replicate (32 - length ?x) False = (take 16 ?x @ drop 16 ?x) @ replicate (32 - length ?x) False"
    by simp
  also have "\<dots> = (take 16 ?y @ drop 16 ?y) @ replicate (32 - length ?y) False"
    unfolding append_assoc t d ..
  also have "\<dots> = ?y @ replicate (32 - length ?y) False" by simp
  finally have "varBits (unat (tiles ! b1)) @ replicate (32 - length ?x) False
              = varBits (unat (tiles ! b2)) @ replicate (32 - length ?y) False"
    by (simp add: tileBits_def)
  then have "unat (tiles ! b1) = unat (tiles ! b2)" by (rule varBits_prefix_inj)
  then show ?thesis by (rule unsigned_word_eqI)
qed

lemma blockStarts_one: "blockStarts (Suc 0) = [0]"
  by (simp add: blockStarts_def BLOCK_SIZE_def)

lemma blockPositions_frames:
  "blockPositions (DUBEncoder_new (Suc 0) (Suc 0) F) = map (\<lambda>f. (f, 0, 0)) [0..<F]"
  by (simp add: blockPositions_def blockStarts_one)

lemma payloads_frames:
  "payloads (DUBEncoder_new (Suc 0) (Suc 0) F) tiles =
     map (\<lambda>f. snd (flush (tileBits (tiles ! f)) [] True)) [0..<F]"
proof -
  have "\<And>f. blockPayload (DUBEncoder_new (Suc 0) (Suc 0) F) tiles (f, 0, 0) =
      Some (snd (flush (tileBits (tiles ! f)) [] True))"
    using encodeBlock_single [of tiles _ "Suc 0"]
    by (simp add: blockPayload_def BLOCK_SIZE_def)
  then show ?thesis
    by (simp add: payloads_def blockPositions_frames comp_def)
qed

lemma distinct_singleton_set:
  assumes "distinct xs" "set xs = {x}"
  shows "xs = [x]"
proof (cases xs)
  case Nil
  with assms show ?thesis by simp
next
  case (Cons a ys)
  with assms have a: "a = x" by auto
  with Cons assms have "set ys \<subseteq> {x}" "x \<notin> set ys" by auto
  then have "ys = []" by (cases ys) auto
  with Cons a show ?thesis by simp
qed

lemma firstOccurrences_replicate: "0 < n \<Longrightarrow> firstOccurrences (replicate n p) = [p]"
  by (rule distinct_singleton_set) simp_all

lemma dedupResult_constant:
  assumes "0 < n"
  shows "dedupResult enc0 (replicate n p) = enc0\<lparr>indexResult := replicate n 0, blockResult := p\<rparr>"
  using assms
  by (simp add: dedupResult_def firstOccurrences_replicate offsetOf_def map_replicate)

lemma constant_frames_result:
  assumes "1000 \<le> F" "F < 2 ^ 31"
  shows "encodeTiles (DUBEncoder_new (Suc 0) (Suc 0) F) (replicate F t) =
     Some \<lparr>mWidth = Suc 0, mHeight = Suc 0, mFrames = F,
           blockResult = snd (flush (tileBits t) [] True),
           indexResult = replicate F 0, mIndex16 = True\<rparr>"
proof -
  let ?X = "DUBEncoder_new (Suc 0) (Suc 0) F"
  let ?p = "snd (flush (tileBits t) [] True)"
  have "payloads ?X (replicate F t) = map (\<lambda>f. ?p) [0..<F]"
    unfolding payloads_frames by (rule map_cong) simp_all
  then have ps: "payloads ?X (replicate F t) = replicate F ?p"
    by (simp add: map_replicate_const)
  let ?D = "?X\<lparr>indexResult := replicate F 0, blockResult := ?p\<rparr>"
  have D: "dedupResult ?X (payloads ?X (replicate F t)) = ?D"
    unfolding ps using assms(1) by (intro dedupResult_constant) simp
  have m: "\<not> mIndex16 ?D" by simp
  have len: "length (indexResult ?D) < 2 ^ 31" "0 < length (indexResult ?D)"
    using assms by simp_all
  have "packIndex ?D 0 = (int F + 1) div 2 - 1"
    using packIndex_8(1) [OF m len] assms(1) by simp
  moreover have "256 \<le> (int F + 1) div 2 - 1"
    using assms(1) by linarith
  ultimately have "\<exists>i \<in> set [0..<F]. 0x100 \<le> packIndex ?D i"
    using assms(1) by (intro bexI [of _ 0]) simp_all
  then have "probeIndex ?D [0..<F] = ?D\<lparr>mIndex16 := True\<rparr>"
    unfolding probeIndex_eq by simp
  moreover have "length (blockPositions ?X) = F"
    by (simp add: blockPositions_frames)
  ultimately show ?thesis
    unfolding encodeTiles_fresh D
    by (simp add: DUBEncoder_new_def)
qed

lemma firstOccurrences_distinct: "distinct ps \<Longrightarrow> firstOccurrences ps = ps"
  by (induction ps rule: rev_induct) (simp_all add: firstOccurrences_snoc)

lemma offsetOf_distinct_nth:
  "distinct ps \<Longrightarrow> k < length ps \<Longrightarrow> offsetOf ps (ps ! k) = length (concat (take k ps))"
proof (induction ps arbitrary: k)
  case Nil
  then show ?case by simp
next
  case (Cons u us)
  show ?case
  proof (cases k)
    case 0
    then show ?thesis by (simp add: offsetOf_Cons)
  next
    case (Suc k')
    with Cons.prems have "us ! k' \<in> set us" "k' < length us" by simp_all
    with Cons.prems have "u \<noteq> us ! k'" by auto
    with Suc Cons show ?thesis by (simp add: offsetOf_Cons)
  qed
qed

lemma length_concat_take_const:
  "\<forall>p \<in> set ps. length p = c \<Longrightarrow> k \<le> length ps \<Longrightarrow> length (concat (take k ps)) = c * k"
proof (induction ps arbitrary: k)
  case Nil
  then show ?case by simp
next
  case (Cons u us)
  then show ?case by (cases k) simp_all
qed

lemma distinct_frames_result:
  assumes enc: "encodeTiles (DUBEncoder_new (Suc 0) (Suc 0) (length T)) T = Some enc"
    and dist: "distinct T" and big: "\<forall>t \<in> set T. 512 \<le> unat t"
  shows "\<forall>k < length T. indexResult enc ! k = word_of_nat (2 * k)"
    and "length (blockResult enc) = 2 * length T"
    and "length (indexResult enc) = length T"
proof -
  let ?X = "DUBEncoder_new (Suc 0) (Suc 0) (length T)"
  let ?ps = "payloads ?X T"
  have ps: "?ps = map (\<lambda>f. snd (flush (tileBits (T ! f)) [] True)) [0..<length T]"
    by (rule payloads_frames)
  have len2: "\<forall>p \<in> set ?ps. length p = 2"
  proof
    fix p assume "p \<in> set ?ps"
    then obtain f where f: "f < length T" "p = snd (flush (tileBits (T ! f)) [] True)"
      unfolding ps by auto
    with big have "512 \<le> unat (T ! f)" by simp
    from length_tileBits [OF this] show "length p = 2"
      by (simp add: f(2) flush_two_words)
  qed
  have "distinct ?ps"
    unfolding distinct_conv_nth
  proof (intro allI impI)
    fix i j assume ij: "i < length ?ps" "j < length ?ps" "i \<noteq> j"
    then have lt: "i < length T" "j < length T" by (simp_all add: ps)
    show "?ps ! i \<noteq> ?ps ! j"
    proof
      assume "?ps ! i = ?ps ! j"
      then have "snd (flush (tileBits (T ! i)) [] True) = snd (flush (tileBits (T ! j)) [] True)"
        using lt by (simp add: ps)
      then have "encodeBlock T i 1 1 1 [] = encodeBlock T j 1 1 1 []"
        unfolding encodeBlock_single by simp
      moreover have "512 \<le> unat (T ! i)" "512 \<le> unat (T ! j)"
        using big lt by simp_all
      ultimately have "T ! i = T ! j"
        using single_payload_inj by blast
      with dist lt ij(3) show False
        by (simp add: nth_eq_iff_index_eq)
    qed
  qed
  then have U: "firstOccurrences ?ps = ?ps" by (rule firstOccurrences_distinct)
  note res = encodeTiles_result [OF enc]
  have lps: "length ?ps = length T" by (simp add: ps)
  show "\<forall>k < length T. indexResult enc ! k = word_of_nat (2 * k)"
  proof (intro allI impI)
    fix k assume k: "k < length T"
    then have "indexResult enc ! k = word_of_nat (offsetOf ?ps (?ps ! k))"
      unfolding res(1) U using lps by simp
    also have "offsetOf ?ps (?ps ! k) = length (concat (take k ?ps))"
      using \<open>distinct ?ps\<close> k lps by (intro offsetOf_distinct_nth) simp_all
    also have "\<dots> = 2 * k"
      using len2 k lps by (intro length_concat_take_const) simp_all
    finally show "indexResult enc ! k = word_of_nat (2 * k)" .
  qed
  have "length (concat (take (length ?ps) ?ps)) = 2 * length ?ps"
    using len2 by (intro length_concat_take_const) simp_all
  then show "length (blockResult enc) = 2 * length T"
    unfolding res(2) U using lps by simp
  show "length (indexResult enc) = length T"
    unfolding res(1) using lps by simp
qed

lemma overflowTiles_length: "length overflowTiles = 32769"
  by (simp only: overflowTiles_def length_map length_upt add_diff_cancel_left')

lemma overflowTiles_nth: "k < 32769 \<Longrightarrow> overflowTiles ! k = word_of_nat (512 + k)"
  by (simp only: overflowTiles_def) (simp del: upt_rec_numeral)

lemma overflowTiles_unat:
  assumes "k < 32769"
  shows "unat (overflowTiles ! k) = 512 + k"
proof -
  have "unat (word_of_nat (512 + k) :: u16) = (512 + k) mod 2 ^ LENGTH(16)"
    by (rule unat_of_nat)
  also have "\<dots> = 512 + k" using assms by simp
  finally show ?thesis
    using assms by (simp only: overflowTiles_nth)
qed

lemma overflowTiles_big: "\<forall>t \<in> set overflowTiles. 512 \<le> unat t"
proof
  fix t assume "t \<in> set overflowTiles"
  then obtain k where "k < 32769" "t = overflowTiles ! k"
    by (auto simp: in_set_conv_nth overflowTiles_length)
  then show "512 \<le> unat t" by (simp add: overflowTiles_unat)
qed

lemma overflowTiles_distinct: "distinct overflowTiles"
  unfolding distinct_conv_nth overflowTiles_length
proof (intro allI impI)
  fix i j :: nat assume ij: "i < 32769" "j < 32769" "i \<noteq> j"
  show "overflowTiles ! i \<noteq> overflowTiles ! j"
  proof
    assume "overflowTiles ! i = overflowTiles ! j"
    then have "unat (overflowTiles ! i) = unat (overflowTiles ! j)" by simp
    with ij show False by (simp add: overflowTiles_unat)
  qed
qed

lemma getIndexSize_nonneg: "0 \<le> getIndexSize enc"
  by (simp add: getIndexSize_def unsigned_def Let_def)

lemma tileBits_0: "tileBits 0 = [False, False, False, False, False, False]"
  unfolding tileBits_def by (subst varBits_unfold) simp

lemma payload_0: "snd (flush (tileBits 0) [] True) = [0]"
  unfolding tileBits_0 by code_simp

lemma tileBits_512:
  "tileBits 512 = [False, False, True, False, False, False, True, False, False, False,
                   True, False, False, False, False, False, False, True]"
  unfolding tileBits_def by (simp, (subst varBits_unfold, simp add: bit_Suc_0_iff)+)

lemma payload_512: "snd (flush (tileBits 512) [] True) = [1092, 2]"
  unfolding tileBits_512 by code_simp

lemma tileBits_33280:
  "tileBits 33280 = [False, False, True, False, False, False, True, False, False, False,
                     True, False, False, False, True, False, False, True, True, False, False, False,
                     False, False, False, True]"
  unfolding tileBits_def by (simp, (subst varBits_unfold, simp add: bit_Suc_0_iff)+)

lemma payload_33280: "snd (flush (tileBits 33280) [] True) = [17476, 518]"
  unfolding tileBits_33280 by code_simp

lemma small_example:
  "encodeTiles (DUBEncoder_new 2 2 3) [5, 5, 5, 5, 6, 6, 6, 6, 5, 5, 5, 5] =
     Some \<lparr>mWidth = 2, mHeight = 2, mFrames = 3, blockResult = [2152, 8, 2136, 8],
           indexResult = [0, 2, 0], mIndex16 = False\<rparr>"
  by code_simp

lemma small_example_positions:
  "blockPositions (DUBEncoder_new 2 2 3) = [(0, 0, 0), (1, 0, 0), (2, 0, 0)]"
  by code_simp

lemma dedup_exact:
  assumes "encodeTiles (DUBEncoder_new w h f) tiles = Some enc"
    and "\<not> isTooLarge enc"
    and "i < length (blockPositions (DUBEncoder_new w h f))"
    and "j < length (blockPositions (DUBEncoder_new w h f))"
  shows "(indexResult enc ! i = indexResult enc ! j \<longleftrightarrow>
            blockPayload (DUBEncoder_new w h f) tiles (blockPositions (DUBEncoder_new w h f) ! i)
            = blockPayload (DUBEncoder_new w h f) tiles (blockPositions (DUBEncoder_new w h f) ! j))
       \<and> blockPayload (DUBEncoder_new w h f) tiles (blockPositions (DUBEncoder_new w h f) ! j)
            = Some (payloads (DUBEncoder_new w h f) tiles ! j)
       \<and> uint (indexResult enc ! j)
            = int (offsetOf (firstOccurrences (payloads (DUBEncoder_new w h f) tiles))
                            (payloads (DUBEncoder_new w h f) tiles ! j))
       \<and> take (length (payloads (DUBEncoder_new w h f) tiles ! j))
              (drop (offsetOf (firstOccurrences (payloads (DUBEncoder_new w h f) tiles))
                              (payloads (DUBEncoder_new w h f) tiles ! j))
                    (blockResult enc))
            = payloads (DUBEncoder_new w h f) tiles ! j
       \<and> blockResult enc = concat (firstOccurrences (payloads (DUBEncoder_new w h f) tiles))"
proof -
  let ?X = "DUBEncoder_new w h f"
  let ?ps = "payloads ?X tiles"
  let ?U = "firstOccurrences ?ps"
  note res = encodeTiles_result [OF assms(1)]
  have "0 \<le> getIndexSize enc"
    by (simp add: getIndexSize_def unsigned_def Let_def)
  with assms(2) have small: "length (concat ?U) < 65536"
    by (simp add: isTooLarge_def res(2))
  have mem: "?ps ! i \<in> set ?U" "?ps ! j \<in> set ?U"
    using assms(3,4) by simp_all
  have off: "\<And>k. offsetOf ?U (?ps ! k) < 65536"
    using offsetOf_le [of ?U] small by (meson le_less_trans)
  have idx: "\<And>k. k < length (blockPositions ?X) \<Longrightarrow>
      indexResult enc ! k = word_of_nat (offsetOf ?U (?ps ! k))"
    by (simp add: res(1))
  have uint_idx: "\<And>k. k < length (blockPositions ?X) \<Longrightarrow>
      uint (indexResult enc ! k) = int (offsetOf ?U (?ps ! k))"
    using off by (simp add: idx uint_word_of_nat_u16)
  have "indexResult enc ! i = indexResult enc ! j \<longleftrightarrow> ?ps ! i = ?ps ! j"
  proof
    assume "indexResult enc ! i = indexResult enc ! j"
    then have "uint (indexResult enc ! i) = uint (indexResult enc ! j)" by simp
    then have "offsetOf ?U (?ps ! i) = offsetOf ?U (?ps ! j)"
      using uint_idx assms(3,4) by simp
    moreover have "[] \<notin> set ?U" using payloads_nonempty [of ?X tiles] by simp
    ultimately show "?ps ! i = ?ps ! j"
      using offsetOf_inj [of ?U "?ps ! i" "?ps ! j"] mem by simp
  next
    assume "?ps ! i = ?ps ! j"
    then show "indexResult enc ! i = indexResult enc ! j"
      using idx assms(3,4) by simp
  qed
  moreover have "blockPayload ?X tiles (blockPositions ?X ! i) = Some (?ps ! i)"
    "blockPayload ?X tiles (blockPositions ?X ! j) = Some (?ps ! j)"
    using payloads_nth assms(3,4) by blast+
  moreover have "take (length (?ps ! j)) (drop (offsetOf ?U (?ps ! j)) (blockResult enc)) = ?ps ! j"
    unfolding res(2) using mem(2) by (rule offsetOf_payload)
  ultimately show ?thesis
    using uint_idx [OF assms(4)] res(2) by simp
qed

lemma packed_index_forward:
  assumes "length (blockPositions (DUBEncoder_new w h f)) < 2 ^ 31"
    and "encodeTiles (DUBEncoder_new w h f) tiles = Some enc"
    and "i < length (indexResult enc)"
  shows "nextWord (enc\<lparr>mIndex16 := b\<rparr>) i
           \<le> getIndexSize (enc\<lparr>mIndex16 := b\<rparr>) + uint (indexResult enc ! i)
       \<and> packIndex (enc\<lparr>mIndex16 := b\<rparr>) i
           = getIndexSize (enc\<lparr>mIndex16 := b\<rparr>) + uint (indexResult enc ! i)
             - nextWord (enc\<lparr>mIndex16 := b\<rparr>) i
       \<and> (\<not> mIndex16 enc \<longrightarrow> uint (index8 enc ! i) = packIndex enc i)
       \<and> (mIndex16 enc \<and> \<not> isTooLarge enc \<longrightarrow>
            (\<exists>r. getResult enc [] = Some r \<and> uint (r ! i) = packIndex enc i))"
proof -
  let ?X = "DUBEncoder_new w h f"
  let ?ps = "payloads ?X tiles"
  let ?U = "firstOccurrences ?ps"
  let ?n = "length (indexResult enc)"
  let ?s = "uint (indexResult enc ! i)"
  note res = encodeTiles_result [OF assms(2)]
  have n: "?n = length (blockPositions ?X)" by (simp add: res(1))
  with assms(1) have n31: "?n < 2 ^ 31" by simp
  have s: "0 \<le> ?s" by simp
  have i31: "i < 2 ^ 31" using assms(3) n31 by simp
  have part1: "nextWord (enc\<lparr>mIndex16 := b\<rparr>) i \<le> getIndexSize (enc\<lparr>mIndex16 := b\<rparr>) + ?s
       \<and> packIndex (enc\<lparr>mIndex16 := b\<rparr>) i
           = getIndexSize (enc\<lparr>mIndex16 := b\<rparr>) + ?s - nextWord (enc\<lparr>mIndex16 := b\<rparr>) i"
  proof (cases b)
    case True
    have "packIndex (enc\<lparr>mIndex16 := True\<rparr>) i = int ?n + ?s - (int i + 1)"
      using packIndex_16 [of "enc\<lparr>mIndex16 := True\<rparr>" i] n31 assms(3) by simp
    moreover have "getIndexSize (enc\<lparr>mIndex16 := True\<rparr>) = int ?n"
      using getIndexSize_16 [of "enc\<lparr>mIndex16 := True\<rparr>"] n31 by simp
    moreover have "nextWord (enc\<lparr>mIndex16 := True\<rparr>) i = int i + 1"
      using nextWord_16 [of "enc\<lparr>mIndex16 := True\<rparr>" i] i31 by simp
    moreover have "int i + 1 \<le> int ?n + ?s"
      using assms(3) s by linarith
    ultimately show ?thesis
      using True by simp
  next
    case False
    have "packIndex (enc\<lparr>mIndex16 := False\<rparr>) i = (int ?n + 1) div 2 + ?s - (int i + 2) div 2"
      "(int i + 2) div 2 \<le> (int ?n + 1) div 2"
      using packIndex_8 [of "enc\<lparr>mIndex16 := False\<rparr>" i] n31 assms(3) by simp_all
    moreover have "getIndexSize (enc\<lparr>mIndex16 := False\<rparr>) = (int ?n + 1) div 2"
      using getIndexSize_8 [of "enc\<lparr>mIndex16 := False\<rparr>"] n31 by simp
    moreover have "nextWord (enc\<lparr>mIndex16 := False\<rparr>) i = (int i + 2) div 2"
      using nextWord_8 [of "enc\<lparr>mIndex16 := False\<rparr>" i] i31 by simp
    moreover have "(int i + 2) div 2 \<le> (int ?n + 1) div 2 + ?s"
      using calculation(2) s by linarith
    ultimately show ?thesis
      using False by simp
  qed
  have part2: "uint (index8 enc ! i) = packIndex enc i" if m: "\<not> mIndex16 enc"
  proof -
    from m have e: "enc\<lparr>mIndex16 := False\<rparr> = enc" by simp
    from m res(3) assms(3) n have "packIndex enc i < 256"
      unfolding e by (simp add: not_le)
    then show ?thesis
      using assms(3) packIndex_nonneg [of enc i] by (simp add: index8_def uint_word_of_int_u8)
  qed
  have part3: "\<exists>r. getResult enc [] = Some r \<and> uint (r ! i) = packIndex enc i"
    if m: "mIndex16 enc" and small: "\<not> isTooLarge enc"
  proof -
    have gi: "getIndexSize enc = int ?n"
      using m n31 by (rule getIndexSize_16)
    have "?s \<le> int (offsetOf ?U (?ps ! i))"
      using assms(3) n by (simp add: res(1) uint_word_of_nat_u16_le)
    also have "\<dots> \<le> int (length (blockResult enc))"
      unfolding res(2) using offsetOf_le by simp
    finally have "?s \<le> int (length (blockResult enc))" .
    moreover have "int ?n + int (length (blockResult enc)) < 65536"
      using small by (simp add: isTooLarge_def gi)
    moreover have "packIndex enc i = int ?n + ?s - (int i + 1)"
      using m n31 assms(3) by (rule packIndex_16)
    ultimately have "packIndex enc i < 65536" by linarith
    then have "uint (word_of_int (packIndex enc i) :: u16) = packIndex enc i"
      using packIndex_nonneg by (intro uint_word_of_int_u16)
    then show ?thesis
      using assms(3) by (simp add: getResult_16 [OF m n31] nth_append)
  qed
  from part1 part2 part3 show ?thesis by blast
qed

section \<open>DUB: properties\<close>




text \<open>
  C5. After \<^verbatim>\<open>encodeTiles\<close> on a new encoder, the index is 16 bits wide exactly when
  some block position \<open>i\<close> has a packed value of at least 256 under the 8-bit hypothesis,
  the packed value being \<open>indexSize + storedOffset[i] - nextWord\<close> with
  \<open>nextWord = (i + 2) div 2\<close> and \<open>indexSize = (blockCount + 1) div 2\<close>. The block
  count is below \<open>2^31\<close>, so that the \<^verbatim>\<open>unsigned\<close> arithmetic of the code is exact.
\<close>

theorem C5_index16_iff:
  assumes "length (blockPositions (DUBEncoder_new w h f)) < 2 ^ 31"
  shows "\<exists>enc. encodeTiles (DUBEncoder_new w h f) tiles = Some enc
           \<and> length (indexResult enc) = length (blockPositions (DUBEncoder_new w h f))
           \<and> (isIndex16 enc \<longleftrightarrow>
                (\<exists>i < length (indexResult enc).
                   256 \<le> (int (length (indexResult enc)) + 1) div 2 + uint (indexResult enc ! i)
                           - (int i + 2) div 2))"
proof -
  let ?X = "DUBEncoder_new w h f"
  let ?D = "dedupResult ?X (payloads ?X tiles)"
  let ?n = "length (blockPositions ?X)"
  have len: "length (indexResult ?D) = ?n"
    by (simp add: payloads_def)
  have m: "\<not> mIndex16 ?D" by simp
  have pk: "\<And>i. i < ?n \<Longrightarrow> packIndex ?D i =
      (int (length (indexResult ?D)) + 1) div 2 + uint (indexResult ?D ! i) - (int i + 2) div 2"
    using packIndex_8(1) [OF m] assms len by simp
  have "mIndex16 (probeIndex ?D [0..<?n]) \<longleftrightarrow>
      (\<exists>i < ?n. 256 \<le> (int (length (indexResult ?D)) + 1) div 2 + uint (indexResult ?D ! i) - (int i + 2) div 2)"
    unfolding probeIndex_mIndex16 using pk by auto
  then show ?thesis
    unfolding encodeTiles_fresh isIndex16_def using len by simp
qed

theorem C5_index16_iff_witness:
  "length (blockPositions (DUBEncoder_new 2 2 3)) < 2 ^ 31
   \<and> encodeTiles (DUBEncoder_new 2 2 3) [5, 5, 5, 5, 6, 6, 6, 6, 5, 5, 5, 5] =
       Some \<lparr>mWidth = 2, mHeight = 2, mFrames = 3, blockResult = [2152, 8, 2136, 8],
             indexResult = [0, 2, 0], mIndex16 = False\<rparr>
   \<and> (isIndex16 \<lparr>mWidth = 2, mHeight = 2, mFrames = 3, blockResult = [2152, 8, 2136, 8],
             indexResult = [0, 2, 0], mIndex16 = False\<rparr>
        \<longleftrightarrow> (\<exists>i < length [0, 2, 0 :: u16].
               256 \<le> (int (length [0, 2, 0 :: u16]) + 1) div 2 + uint ([0, 2, 0 :: u16] ! i)
                       - (int i + 2) div 2))"
proof -
  let ?E = "\<lparr>mWidth = 2, mHeight = 2, mFrames = 3, blockResult = [2152, 8, 2136, 8 :: u16],
             indexResult = [0, 2, 0 :: u16], mIndex16 = False\<rparr>"
  have n: "length (blockPositions (DUBEncoder_new 2 2 3)) < 2 ^ 31"
    by (simp add: small_example_positions)
  from C5_index16_iff [OF n, of "[5, 5, 5, 5, 6, 6, 6, 6, 5, 5, 5, 5]"]
  obtain enc where enc: "encodeTiles (DUBEncoder_new 2 2 3) [5, 5, 5, 5, 6, 6, 6, 6, 5, 5, 5, 5] = Some enc"
    and iff: "isIndex16 enc \<longleftrightarrow>
       (\<exists>i < length (indexResult enc).
           256 \<le> (int (length (indexResult enc)) + 1) div 2 + uint (indexResult enc ! i)
                   - (int i + 2) div 2)"
    by blast
  from enc have "enc = ?E" unfolding small_example by simp
  with iff have "isIndex16 ?E \<longleftrightarrow>
       (\<exists>i < length (indexResult ?E).
           256 \<le> (int (length (indexResult ?E)) + 1) div 2 + uint (indexResult ?E ! i)
                   - (int i + 2) div 2)"
    by (simp only:)
  then have "isIndex16 ?E \<longleftrightarrow>
       (\<exists>i < length [0, 2, 0 :: u16].
           256 \<le> (int (length [0, 2, 0 :: u16]) + 1) div 2 + uint ([0, 2, 0 :: u16] ! i)
                   - (int i + 2) div 2)"
    by (simp only: DUBEncoder.simps)
  with n small_example show ?thesis by blast
qed

text \<open>
  C6. The claim is made for every input. The address of a new payload is
  \<^verbatim>\<open>uint16_t addr = blockResult.size()\<close>: once the block data holds 65536 words the
  address wraps, and two different payloads get one index entry. With 32769 frames of
  one tile, the tiles 512, 513, ... all different, every payload has two words; the last
  block is stored at word 65536, and its index entry is 0, the entry of the first block.
  The encoder reports this stream as too large.
\<close>

theorem C6_counterexample:
  "encodeTiles (DUBEncoder_new 1 1 32769) overflowTiles \<noteq> None
   \<and> isTooLarge (the (encodeTiles (DUBEncoder_new 1 1 32769) overflowTiles))
   \<and> indexResult (the (encodeTiles (DUBEncoder_new 1 1 32769) overflowTiles)) ! 0
       = indexResult (the (encodeTiles (DUBEncoder_new 1 1 32769) overflowTiles)) ! 32768
   \<and> blockPositions (DUBEncoder_new 1 1 32769) ! 0 = (0, 0, 0)
   \<and> blockPositions (DUBEncoder_new 1 1 32769) ! 32768 = (32768, 0, 0)
   \<and> blockPayload (DUBEncoder_new 1 1 32769) overflowTiles (0, 0, 0) = Some [1092, 2]
   \<and> blockPayload (DUBEncoder_new 1 1 32769) overflowTiles (32768, 0, 0) = Some [17476, 518]"
proof -
  let ?X = "DUBEncoder_new (Suc 0) (Suc 0) 32769"
  obtain enc where enc: "encodeTiles ?X overflowTiles = Some enc"
    using encodeTiles_fresh by blast
  have enc': "encodeTiles (DUBEncoder_new (Suc 0) (Suc 0) (length overflowTiles)) overflowTiles = Some enc"
    unfolding overflowTiles_length by (rule enc)
  note r = distinct_frames_result [OF enc' overflowTiles_distinct overflowTiles_big]
  have "indexResult enc ! 0 = word_of_nat (2 * 0)" "indexResult enc ! 32768 = word_of_nat (2 * 32768)"
    using r(1) unfolding overflowTiles_length by simp_all
  then have same: "indexResult enc ! 0 = indexResult enc ! 32768"
    by simp
  have "length (blockResult enc) = 65538"
    using r(2) unfolding overflowTiles_length by simp
  then have big: "isTooLarge enc"
    using getIndexSize_nonneg [of enc] by (simp add: isTooLarge_def)
  have pos: "blockPositions ?X ! 0 = (0, 0, 0)" "blockPositions ?X ! 32768 = (32768, 0, 0)"
    by (simp_all add: blockPositions_frames)
  have t0: "overflowTiles ! 0 = 512" and t1: "overflowTiles ! 32768 = 33280"
    by (simp_all add: overflowTiles_nth)
  have bp: "\<And>f. blockPayload ?X overflowTiles (f, 0, 0) = Some (snd (flush (tileBits (overflowTiles ! f)) [] True))"
    using encodeBlock_single [of overflowTiles _ "Suc 0"]
    by (simp add: blockPayload_def BLOCK_SIZE_def)
  have p0: "blockPayload ?X overflowTiles (0, 0, 0) = Some [1092, 2]"
    by (simp only: bp t0 payload_512)
  have p1: "blockPayload ?X overflowTiles (32768, 0, 0) = Some [17476, 518]"
    by (simp only: bp t1 payload_33280)
  show ?thesis
    unfolding One_nat_def enc using same big pos p0 p1 by simp
qed

text \<open>
  C6, amended. For every input that the encoder does not report as too large: two blocks
  have the same index entry exactly when their payloads are the same word sequence; the
  index entry of a block is the offset at which its payload was stored when it first
  occurred, and the payload is found there in the block data; the block data is the
  concatenation of the distinct payloads in the order of their first occurrence (this
  last part holds for every input).
\<close>

theorem C6_dedup_exact:
  "\<exists>enc. encodeTiles (DUBEncoder_new w h f) tiles = Some enc
     \<and> length (indexResult enc) = length (blockPositions (DUBEncoder_new w h f))
     \<and> blockResult enc = concat (firstOccurrences (payloads (DUBEncoder_new w h f) tiles))
     \<and> (\<not> isTooLarge enc \<longrightarrow>
          (\<forall>i < length (blockPositions (DUBEncoder_new w h f)).
           \<forall>j < length (blockPositions (DUBEncoder_new w h f)).
             (indexResult enc ! i = indexResult enc ! j \<longleftrightarrow>
                blockPayload (DUBEncoder_new w h f) tiles (blockPositions (DUBEncoder_new w h f) ! i)
                = blockPayload (DUBEncoder_new w h f) tiles (blockPositions (DUBEncoder_new w h f) ! j))
           \<and> blockPayload (DUBEncoder_new w h f) tiles (blockPositions (DUBEncoder_new w h f) ! j)
                = Some (payloads (DUBEncoder_new w h f) tiles ! j)
           \<and> uint (indexResult enc ! j)
                = int (offsetOf (firstOccurrences (payloads (DUBEncoder_new w h f) tiles))
                                (payloads (DUBEncoder_new w h f) tiles ! j))
           \<and> take (length (payloads (DUBEncoder_new w h f) tiles ! j))
                  (drop (offsetOf (firstOccurrences (payloads (DUBEncoder_new w h f) tiles))
                                  (payloads (DUBEncoder_new w h f) tiles ! j))
                        (blockResult enc))
                = payloads (DUBEncoder_new w h f) tiles ! j))"
proof -
  obtain enc where enc: "encodeTiles (DUBEncoder_new w h f) tiles = Some enc"
    using encodeTiles_fresh by blast
  note res = encodeTiles_result [OF enc]
  have "length (indexResult enc) = length (blockPositions (DUBEncoder_new w h f))"
    by (simp add: res(1))
  with enc res(2) dedup_exact [OF enc] show ?thesis
    by blast
qed

theorem C6_dedup_exact_witness:
  "encodeTiles (DUBEncoder_new 2 2 3) [5, 5, 5, 5, 6, 6, 6, 6, 5, 5, 5, 5] =
       Some \<lparr>mWidth = 2, mHeight = 2, mFrames = 3, blockResult = [2152, 8, 2136, 8],
             indexResult = [0, 2, 0], mIndex16 = False\<rparr>
   \<and> \<not> isTooLarge \<lparr>mWidth = 2, mHeight = 2, mFrames = 3, blockResult = [2152, 8, 2136, 8],
                     indexResult = [0, 2, 0], mIndex16 = False\<rparr>
   \<and> (0 :: nat) < length (blockPositions (DUBEncoder_new 2 2 3))
   \<and> (2 :: nat) < length (blockPositions (DUBEncoder_new 2 2 3))
   \<and> ([0, 2, 0 :: u16] ! 0 = [0, 2, 0] ! 2 \<longleftrightarrow>
        blockPayload (DUBEncoder_new 2 2 3) [5, 5, 5, 5, 6, 6, 6, 6, 5, 5, 5, 5]
          (blockPositions (DUBEncoder_new 2 2 3) ! 0)
        = blockPayload (DUBEncoder_new 2 2 3) [5, 5, 5, 5, 6, 6, 6, 6, 5, 5, 5, 5]
          (blockPositions (DUBEncoder_new 2 2 3) ! 2))
   \<and> [2152, 8, 2136, 8]
       = concat (firstOccurrences (payloads (DUBEncoder_new 2 2 3) [5, 5, 5, 5, 6, 6, 6, 6, 5, 5, 5, 5]))"
proof -
  let ?X = "DUBEncoder_new 2 2 3"
  let ?T = "[5, 5, 5, 5, 6, 6, 6, 6, 5, 5, 5, 5] :: u16 list"
  let ?E = "\<lparr>mWidth = 2, mHeight = 2, mFrames = 3, blockResult = [2152, 8, 2136, 8 :: u16],
             indexResult = [0, 2, 0 :: u16], mIndex16 = False\<rparr>"
  have small: "\<not> isTooLarge ?E"
    by (simp add: isTooLarge_def getIndexSize_def unsigned_def)
  have i: "0 < length (blockPositions ?X)" and j: "2 < length (blockPositions ?X)"
    by (simp_all add: small_example_positions)
  from C6_dedup_exact [of 2 2 3 ?T] obtain enc where
    enc: "encodeTiles ?X ?T = Some enc"
    and br: "blockResult enc = concat (firstOccurrences (payloads ?X ?T))"
    and ex: "\<not> isTooLarge enc \<longrightarrow>
          (\<forall>i < length (blockPositions ?X). \<forall>j < length (blockPositions ?X).
             (indexResult enc ! i = indexResult enc ! j \<longleftrightarrow>
                blockPayload ?X ?T (blockPositions ?X ! i) = blockPayload ?X ?T (blockPositions ?X ! j))
           \<and> blockPayload ?X ?T (blockPositions ?X ! j) = Some (payloads ?X ?T ! j)
           \<and> uint (indexResult enc ! j)
                = int (offsetOf (firstOccurrences (payloads ?X ?T)) (payloads ?X ?T ! j))
           \<and> take (length (payloads ?X ?T ! j))
                  (drop (offsetOf (firstOccurrences (payloads ?X ?T)) (payloads ?X ?T ! j))
                        (blockResult enc))
                = payloads ?X ?T ! j)"
    by blast
  from enc have E: "enc = ?E" unfolding small_example by simp
  from ex small i j have "indexResult ?E ! 0 = indexResult ?E ! 2 \<longleftrightarrow>
        blockPayload ?X ?T (blockPositions ?X ! 0) = blockPayload ?X ?T (blockPositions ?X ! 2)"
    unfolding E by blast
  moreover from br have "blockResult ?E = concat (firstOccurrences (payloads ?X ?T))"
    unfolding E .
  ultimately have "[0, 2, 0 :: u16] ! 0 = [0, 2, 0] ! 2 \<longleftrightarrow>
        blockPayload ?X ?T (blockPositions ?X ! 0) = blockPayload ?X ?T (blockPositions ?X ! 2)"
    and "[2152, 8, 2136, 8] = concat (firstOccurrences (payloads ?X ?T))"
    by (simp_all only: DUBEncoder.simps)
  with small_example small i j show ?thesis by blast
qed

text \<open>
  C9. The inequality of the claim holds, but its conclusion does not hold for every
  output: a packed value of 65536 or more is cut to 16 bits when \<^verbatim>\<open>getResult\<close> stores
  it. With 65537 frames of one tile 0 all blocks share one payload, the index is 16 bits
  wide, the packed value of block 0 is \<open>65537 + 0 - 1 = 65536\<close>, and the first word of
  the output is 0. The encoder reports this stream as too large.
\<close>

theorem C9_counterexample:
  "encodeTiles (DUBEncoder_new 1 1 65537) (replicate 65537 0) =
     Some \<lparr>mWidth = 1, mHeight = 1, mFrames = 65537, blockResult = [0],
           indexResult = replicate 65537 0, mIndex16 = True\<rparr>
   \<and> isTooLarge \<lparr>mWidth = 1, mHeight = 1, mFrames = 65537, blockResult = [0],
                  indexResult = replicate 65537 0, mIndex16 = True\<rparr>
   \<and> packIndex \<lparr>mWidth = 1, mHeight = 1, mFrames = 65537, blockResult = [0],
                 indexResult = replicate 65537 0, mIndex16 = True\<rparr> 0 = 65536
   \<and> map_option hd (getResult \<lparr>mWidth = 1, mHeight = 1, mFrames = 65537, blockResult = [0],
                                indexResult = replicate 65537 0, mIndex16 = True\<rparr> []) = Some 0"
proof -
  let ?E = "\<lparr>mWidth = Suc 0, mHeight = Suc 0, mFrames = 65537, blockResult = [0 :: u16],
             indexResult = replicate 65537 (0 :: u16), mIndex16 = True\<rparr>"
  have enc: "encodeTiles (DUBEncoder_new (Suc 0) (Suc 0) 65537) (replicate 65537 0) = Some ?E"
    using constant_frames_result [of 65537 0] by (simp add: payload_0)
  have m: "mIndex16 ?E" and n: "length (indexResult ?E) < 2 ^ 31" and i: "0 < length (indexResult ?E)"
    by simp_all
  have gi: "getIndexSize ?E = 65537"
    using getIndexSize_16 [OF m n] by simp
  have big: "isTooLarge ?E"
    by (simp add: isTooLarge_def gi)
  have pk: "packIndex ?E 0 = 65536"
    using packIndex_16 [OF m n i] by simp
  have "getResult ?E [] = Some (map (\<lambda>i. word_of_int (packIndex ?E i)) [0..<65537] @ [0])"
    using getResult_16 [OF m n] by simp
  then have "map_option hd (getResult ?E []) = Some (word_of_int (packIndex ?E 0))"
    by (simp add: hd_append hd_map)
  moreover have "(word_of_int (packIndex ?E 0) :: u16) = 0"
    unfolding pk by simp
  ultimately have out: "map_option hd (getResult ?E []) = Some 0"
    by (simp only:)
  show ?thesis
    unfolding One_nat_def using enc big pk out by blast
qed

text \<open>
  C9, amended. For every block position \<open>i\<close> and under either index-width hypothesis,
  \<open>indexSize + storedOffset[i] \<ge> nextWord\<close>, and the packed value computed in unsigned
  arithmetic is exactly \<open>indexSize + storedOffset[i] - nextWord\<close>, a forward offset. An
  8-bit index stores it unchanged; a 16-bit index stores it unchanged whenever the
  encoder does not report the stream as too large. The block count is below \<open>2^31\<close>.
\<close>

theorem C9_packed_index_forward:
  assumes "length (blockPositions (DUBEncoder_new w h f)) < 2 ^ 31"
  shows "\<exists>enc. encodeTiles (DUBEncoder_new w h f) tiles = Some enc
     \<and> (\<forall>i < length (indexResult enc).
          (\<forall>b. nextWord (enc\<lparr>mIndex16 := b\<rparr>) i
                  \<le> getIndexSize (enc\<lparr>mIndex16 := b\<rparr>) + uint (indexResult enc ! i)
              \<and> packIndex (enc\<lparr>mIndex16 := b\<rparr>) i
                  = getIndexSize (enc\<lparr>mIndex16 := b\<rparr>) + uint (indexResult enc ! i)
                    - nextWord (enc\<lparr>mIndex16 := b\<rparr>) i)
        \<and> (\<not> mIndex16 enc \<longrightarrow> uint (index8 enc ! i) = packIndex enc i)
        \<and> (mIndex16 enc \<and> \<not> isTooLarge enc \<longrightarrow>
             (\<exists>r. getResult enc [] = Some r \<and> uint (r ! i) = packIndex enc i)))"
proof -
  obtain enc where enc: "encodeTiles (DUBEncoder_new w h f) tiles = Some enc"
    using encodeTiles_fresh by blast
  from packed_index_forward [OF assms enc] enc show ?thesis
    by blast
qed

theorem C9_packed_index_forward_witness:
  "length (blockPositions (DUBEncoder_new 2 2 3)) < 2 ^ 31
   \<and> encodeTiles (DUBEncoder_new 2 2 3) [5, 5, 5, 5, 6, 6, 6, 6, 5, 5, 5, 5] =
       Some \<lparr>mWidth = 2, mHeight = 2, mFrames = 3, blockResult = [2152, 8, 2136, 8],
             indexResult = [0, 2, 0], mIndex16 = False\<rparr>
   \<and> (1 :: nat) < length (indexResult \<lparr>mWidth = 2, mHeight = 2, mFrames = 3,
             blockResult = [2152, 8, 2136, 8], indexResult = [0, 2, 0], mIndex16 = False\<rparr>)
   \<and> nextWord \<lparr>mWidth = 2, mHeight = 2, mFrames = 3, blockResult = [2152, 8, 2136, 8],
                indexResult = [0, 2, 0], mIndex16 = False\<rparr> 1 = 1
   \<and> getIndexSize \<lparr>mWidth = 2, mHeight = 2, mFrames = 3, blockResult = [2152, 8, 2136, 8],
                    indexResult = [0, 2, 0], mIndex16 = False\<rparr> = 2
   \<and> packIndex \<lparr>mWidth = 2, mHeight = 2, mFrames = 3, blockResult = [2152, 8, 2136, 8],
                 indexResult = [0, 2, 0], mIndex16 = False\<rparr> 1 = 3
   \<and> uint (index8 \<lparr>mWidth = 2, mHeight = 2, mFrames = 3, blockResult = [2152, 8, 2136, 8],
                    indexResult = [0, 2, 0], mIndex16 = False\<rparr> ! 1) = 3"
proof -
  let ?X = "DUBEncoder_new 2 2 3"
  let ?T = "[5, 5, 5, 5, 6, 6, 6, 6, 5, 5, 5, 5] :: u16 list"
  let ?E = "\<lparr>mWidth = 2, mHeight = 2, mFrames = 3, blockResult = [2152, 8, 2136, 8 :: u16],
             indexResult = [0, 2, 0 :: u16], mIndex16 = False\<rparr>"
  have n: "length (blockPositions ?X) < 2 ^ 31"
    by (simp add: small_example_positions)
  from C9_packed_index_forward [OF n, of ?T] obtain enc where
    enc: "encodeTiles ?X ?T = Some enc"
    and all: "\<forall>i < length (indexResult enc).
          (\<forall>b. nextWord (enc\<lparr>mIndex16 := b\<rparr>) i
                  \<le> getIndexSize (enc\<lparr>mIndex16 := b\<rparr>) + uint (indexResult enc ! i)
              \<and> packIndex (enc\<lparr>mIndex16 := b\<rparr>) i
                  = getIndexSize (enc\<lparr>mIndex16 := b\<rparr>) + uint (indexResult enc ! i)
                    - nextWord (enc\<lparr>mIndex16 := b\<rparr>) i)
        \<and> (\<not> mIndex16 enc \<longrightarrow> uint (index8 enc ! i) = packIndex enc i)
        \<and> (mIndex16 enc \<and> \<not> isTooLarge enc \<longrightarrow>
             (\<exists>r. getResult enc [] = Some r \<and> uint (r ! i) = packIndex enc i))"
    by blast
  from enc have E: "enc = ?E" unfolding small_example by simp
  have i: "1 < length (indexResult ?E)" by simp
  have nw: "nextWord ?E 1 = 1" and gi: "getIndexSize ?E = 2" and pk: "packIndex ?E 1 = 3"
    by (simp_all add: packIndex_def getIndexSize_def nextWord_def unsigned_def)
  from all i have "uint (index8 ?E ! 1) = packIndex ?E 1"
    unfolding E by simp
  with pk have "uint (index8 ?E ! 1) = 3" by simp
  with n small_example i nw gi pk show ?thesis by blast
qed

end
